theory Spec2Isabelle
  imports Complex_Main "HOL-Library.AList" "HOL-Library.Multiset"
begin

section \<open>Values shared with the collaborators\<close>

text \<open>
  Python values stored under \<open>Dict[str, Any]\<close>. A Python \<open>dict\<close> keeps its keys in
  insertion order and assigning to a key that is present keeps the key's position, so a
  dict is an association list with \<open>map_of\<close> for lookup and \<open>AList.update\<close> for
  \<^verbatim>\<open>d[k] = v\<close>.
\<close>

datatype py_value = PyInt int | PyFloat real | PyStr string

text \<open>
  Modelled from the spec: \<open>ChangeEvent\<close> and \<open>ChangeSet\<close> live in
  \<^verbatim>\<open>chronos/change_algebra.py\<close>, which is not among the sources. Section 6 of the
  specification gives their contract: a \<open>ChangeEvent\<close> is an immutable value with the
  fields \<open>eid\<close>, \<open>t0\<close>, \<open>dt\<close>, \<open>prob\<close> and \<open>meta\<close>; a \<open>ChangeSet\<close> is an ordered
  container of events with \<open>add(event)\<close>, built empty or from a sequence. The
  specification of \<open>spawn\<close> says that a \<^emph>\<open>non-empty\<close> ChangeSet replaces the seeded
  timeline, so an empty ChangeSet is falsy for Python's \<^verbatim>\<open>or\<close>.
  The fields of an event carry the prefix \<open>ev\<close> because \<open>Entity\<close> and \<open>Schema\<close> use
  \<open>eid\<close> and \<open>meta\<close> too.
\<close>

record change_event =
  ev_eid :: string
  ev_t0 :: real
  ev_dt :: real
  ev_prob :: real
  ev_meta :: "(string \<times> py_value) list"

type_synonym changeset = "change_event list"

definition ChangeSet :: changeset where
  "ChangeSet = []"

definition add :: "changeset \<Rightarrow> change_event \<Rightarrow> changeset" where
  "add cs ev = cs @ [ev]"

definition truthy :: "changeset \<Rightarrow> bool" where
  "truthy cs = (cs \<noteq> [])"

text \<open>
  \<^verbatim>\<open>r or timeline\<close> for a generator's return value \<open>r\<close>, which is \<open>None\<close> or a
  ChangeSet: the right operand is taken exactly when \<open>r\<close> is falsy.
\<close>

fun py_or :: "changeset option \<Rightarrow> changeset \<Rightarrow> changeset" where
  "py_or None timeline = timeline"
| "py_or (Some cs) timeline = (if truthy cs then cs else timeline)"

section \<open>Exceptions\<close>

text \<open>
  Every failure of \<^verbatim>\<open>ontology.py\<close> is a Python \<open>KeyError\<close>; its argument is the message
  (or, for a failed dict subscript, the missing key). \<open>Raised\<close> stands for any other
  exception, which only a caller's generator can raise.
\<close>

datatype error = KeyError string | Raised string

section \<open>Schema and Entity\<close>

record schema =
  type_id :: string
  mean_period :: real
  default_dt :: real
  description :: string
  meta :: "(string \<times> py_value) list option"

text \<open>
  \<open>Entity.generator\<close> holds a reference to a function of the caller that takes the
  entity itself. The reference is a \<open>fn_ref\<close>; the caller's functions are a table
  \<open>fn_table\<close> that says what each reference does when called on an entity: it raises
  (\<open>Inl\<close>) or returns \<open>None\<close> or a ChangeSet (\<open>Inr\<close>). Every operation that calls a
  generator takes the table as its first argument, and every theorem holds for all tables.
  Generators are pure (section 3 of the specification): a call does not write to the
  entity it is given.
\<close>

type_synonym fn_ref = nat

record entity =
  eid :: string
  schema :: schema
  goal :: change_event
  timeline :: changeset
  generator :: fn_ref
  priority :: int

type_synonym fn_table = "fn_ref \<Rightarrow> entity \<Rightarrow> error + changeset option"

section \<open>Ontology\<close>

text \<open>
  The three dicts of an \<open>Ontology\<close>. \<open>deps\<close> is a \<open>defaultdict(dict)\<close>: reading
  \<^verbatim>\<open>self._deps[k]\<close> for a missing \<open>k\<close> first stores an empty dict under \<open>k\<close>, while
  \<^verbatim>\<open>self._deps.get(k, {})\<close> stores nothing.
\<close>

record ontology =
  schemas :: "(string \<times> schema) list"
  entities_map :: "(string \<times> entity) list"
  deps :: "(string \<times> (string \<times> string) list) list"

definition Ontology :: ontology where
  "Ontology = \<lparr>schemas = [], entities_map = [], deps = []\<rparr>"

text \<open>\<^verbatim>\<open>k in d\<close> for a dict \<open>d\<close>.\<close>

definition has_key :: "('k \<times> 'v) list \<Rightarrow> 'k \<Rightarrow> bool" where
  "has_key d k = (map_of d k \<noteq> None)"

text \<open>
  An operation that mutates the ontology returns its result (an exception or a value)
  together with the ontology as the call leaves it, also when it raises.
\<close>

definition add_schema :: "ontology \<Rightarrow> schema \<Rightarrow> (error + unit) \<times> ontology" where
  "add_schema ont s =
     (if has_key (schemas ont) (type_id s)
      then (Inl (KeyError (''Schema '' @ [CHR 0x27] @ type_id s @ [CHR 0x27] @ '' already exists'')), ont)
      else (Inr (), ont\<lparr>schemas := AList.update (type_id s) s (schemas ont)\<rparr>))"

definition schema_lookup :: "ontology \<Rightarrow> string \<Rightarrow> error + schema" where
  "schema_lookup ont tid =
     (case map_of (schemas ont) tid of
        None \<Rightarrow> Inl (KeyError tid)
      | Some s \<Rightarrow> Inr s)"

text \<open>
  \<open>t0\<close> is a float or a datetime in the source; \<open>spawn\<close> only stores it, and it is a
  real number here.
  The goal event of \<open>spawn\<close>, and the entity as it stands when the generator is called:
  \<open>timeline\<close> and \<open>ent.timeline\<close> are one object, so \<^verbatim>\<open>timeline.add(goal_ev)\<close> after the
  construction of \<open>ent\<close> shows in \<open>ent.timeline\<close>.
\<close>

definition goal_event :: "string \<Rightarrow> string \<Rightarrow> real \<Rightarrow> int \<Rightarrow> change_event" where
  "goal_event entity_id goal_name t0 prio =
     \<lparr>ev_eid = entity_id @ ''::goal::'' @ goal_name, ev_t0 = t0, ev_dt = 0, ev_prob = 1,
      ev_meta = [(''priority'', PyInt prio)]\<rparr>"

definition seeded_entity ::
  "string \<Rightarrow> schema \<Rightarrow> string \<Rightarrow> fn_ref \<Rightarrow> real \<Rightarrow> int \<Rightarrow> entity" where
  "seeded_entity entity_id sch goal_name generator_fn t0 prio =
     (let goal_ev = goal_event entity_id goal_name t0 prio;
          timeline0 = ChangeSet;
          ent = \<lparr>eid = entity_id, schema = sch, goal = goal_ev, timeline = timeline0,
                 generator = generator_fn, priority = prio\<rparr>
      in ent\<lparr>timeline := add timeline0 goal_ev\<rparr>)"

definition spawn ::
  "fn_table \<Rightarrow> ontology \<Rightarrow> string \<Rightarrow> string \<Rightarrow> string \<Rightarrow> fn_ref \<Rightarrow> real \<Rightarrow> int
     \<Rightarrow> (error + entity) \<times> ontology" where
  "spawn fns ont entity_id tid goal_name generator_fn t0 prio =
     (if has_key (entities_map ont) entity_id
      then (Inl (KeyError (''Entity '' @ [CHR 0x27] @ entity_id @ [CHR 0x27] @ '' already exists'')), ont)
      else
        (case schema_lookup ont tid of
           Inl e \<Rightarrow> (Inl e, ont)
         | Inr sch \<Rightarrow>
             (let ent = seeded_entity entity_id sch goal_name generator_fn t0 prio
              in case fns generator_fn ent of
                   Inl e \<Rightarrow> (Inl e, ont)
                 | Inr r \<Rightarrow>
                     (let ent' = ent\<lparr>timeline := py_or r (timeline ent)\<rparr>
                      in (Inr ent',
                          ont\<lparr>entities_map := AList.update entity_id ent' (entities_map ont)\<rparr>)))))"

definition entities :: "ontology \<Rightarrow> entity list" where
  "entities ont = map snd (entities_map ont)"

text \<open>
  \<^verbatim>\<open>self._deps[depender][dependee] = kind\<close>: the inner dict of \<open>depender\<close> (a fresh empty one
  when \<open>depender\<close> has none) gets \<open>dependee\<close> set to \<open>kind\<close>.
\<close>

definition add_dependency ::
  "ontology \<Rightarrow> string \<Rightarrow> string \<Rightarrow> string \<Rightarrow> (error + unit) \<times> ontology" where
  "add_dependency ont depender dependee kind =
     (if \<not> has_key (entities_map ont) depender \<or> \<not> has_key (entities_map ont) dependee
      then (Inl (KeyError ''Both entities must exist before linking''), ont)
      else
        (let inner = (case map_of (deps ont) depender of None \<Rightarrow> [] | Some d \<Rightarrow> d)
         in (Inr (),
             ont\<lparr>deps := AList.update depender (AList.update dependee kind inner) (deps ont)\<rparr>)))"

definition dependencies_of :: "ontology \<Rightarrow> string \<Rightarrow> (string \<times> string) list" where
  "dependencies_of ont e = (case map_of (deps ont) e of None \<Rightarrow> [] | Some d \<Rightarrow> d)"

definition dependents_of :: "ontology \<Rightarrow> string \<Rightarrow> (string \<times> string) list" where
  "dependents_of ont e =
     concat (map (\<lambda>(depender, d).
       concat (map (\<lambda>(dependee, kind). if dependee = e then [(depender, kind)] else []) d))
       (deps ont))"

definition dependencies :: "entity \<Rightarrow> ontology \<Rightarrow> (string \<times> string) list" where
  "dependencies self ont = dependencies_of ont (eid self)"

definition dependents :: "entity \<Rightarrow> ontology \<Rightarrow> (string \<times> string) list" where
  "dependents self ont = dependents_of ont (eid self)"

definition effective_priority :: "entity \<Rightarrow> ontology \<Rightarrow> int" where
  "effective_priority self ont =
     (let pull = sum_list (map (\<lambda>_. 1) (dependents self ont))
      in priority self + pull)"

text \<open>
  \<^verbatim>\<open>self.timeline = self.generator(self) or self.timeline\<close>. When the generator raises,
  the assignment does not happen.
\<close>

definition regenerate :: "fn_table \<Rightarrow> entity \<Rightarrow> (error + unit) \<times> entity" where
  "regenerate fns self =
     (case fns (generator self) self of
        Inl e \<Rightarrow> (Inl e, self)
      | Inr r \<Rightarrow> (Inr (), self\<lparr>timeline := py_or r (timeline self)\<rparr>))"

section \<open>The quickstart example\<close>

text \<open>
  The schemas, generators and calls of \<^verbatim>\<open>examples/dependency_quickstart.py\<close>. The
  generators ignore their entity and return one event each; the events are built without
  \<open>meta\<close>, which is then empty.
\<close>

definition tea_schema :: schema where
  "tea_schema = \<lparr>type_id = ''tea-party'', mean_period = 5, default_dt = 1 / 2,
     description = ''A tea party with Vogons'', meta = Some []\<rparr>"

definition whale_schema :: schema where
  "whale_schema = \<lparr>type_id = ''whale'', mean_period = 10, default_dt = 1 / 5,
     description = ''A spontaneous whale appearance'', meta = Some []\<rparr>"

definition petunia_schema :: schema where
  "petunia_schema = \<lparr>type_id = ''petunia'', mean_period = 15, default_dt = 1 / 10,
     description = ''A petunia uprising'', meta = Some []\<rparr>"

definition tea_event :: change_event where
  "tea_event = \<lparr>ev_eid = ''tea-party-with-Vogon'', ev_t0 = 0, ev_dt = 1 / 2, ev_prob = 1,
     ev_meta = []\<rparr>"

definition whale_event :: change_event where
  "whale_event = \<lparr>ev_eid = ''spontaneous-whale-appearance'', ev_t0 = 0, ev_dt = 1 / 5,
     ev_prob = 1, ev_meta = []\<rparr>"

definition petunia_event :: change_event where
  "petunia_event = \<lparr>ev_eid = ''petunia-uprising'', ev_t0 = 0, ev_dt = 1 / 10, ev_prob = 1,
     ev_meta = []\<rparr>"

definition tea_generator :: "entity \<Rightarrow> error + changeset option" where
  "tea_generator entity = Inr (Some [tea_event])"

definition whale_generator :: "entity \<Rightarrow> error + changeset option" where
  "whale_generator entity = Inr (Some [whale_event])"

definition petunia_generator :: "entity \<Rightarrow> error + changeset option" where
  "petunia_generator entity = Inr (Some [petunia_event])"

text \<open>The references \<open>0\<close>, \<open>1\<close> and \<open>2\<close> name the three generators of the example.\<close>

definition quickstart_fns :: fn_table where
  "quickstart_fns r =
     (if r = 0 then tea_generator else if r = 1 then whale_generator else petunia_generator)"

text \<open>
  Two more tables of caller's functions, for the cases the example does not have: every
  generator returns \<open>None\<close>, and every generator raises.
\<close>

definition keep_fns :: fn_table where
  "keep_fns r entity = Inr None"

definition failing_fns :: fn_table where
  "failing_fns r entity = Inl (Raised ''boom'')"

section \<open>Sequences of calls\<close>

text \<open>
  A client drives an ontology by a sequence of calls, going on after a call that raised.
  \<open>Regenerate e\<close> is \<^verbatim>\<open>ent.regenerate()\<close> on the entity registered under \<open>e\<close>, which is
  the object the ontology holds. \<open>run fns cs\<close> is the ontology that the calls \<open>cs\<close> leave,
  starting from \<^verbatim>\<open>Ontology()\<close>.
\<close>

datatype client_call =
    AddSchema schema
  | Spawn string string string fn_ref real int
  | AddDependency string string string
  | Regenerate string

fun exec :: "fn_table \<Rightarrow> ontology \<Rightarrow> client_call \<Rightarrow> ontology" where
  "exec fns ont (AddSchema s) = snd (add_schema ont s)"
| "exec fns ont (Spawn entity_id tid goal_name g t0 prio) =
     snd (spawn fns ont entity_id tid goal_name g t0 prio)"
| "exec fns ont (AddDependency depender dependee kind) =
     snd (add_dependency ont depender dependee kind)"
| "exec fns ont (Regenerate e) =
     (case map_of (entities_map ont) e of
        None \<Rightarrow> ont
      | Some ent \<Rightarrow>
          ont\<lparr>entities_map := AList.update e (snd (regenerate fns ent)) (entities_map ont)\<rparr>)"

definition run :: "fn_table \<Rightarrow> client_call list \<Rightarrow> ontology" where
  "run fns cs = foldl (exec fns) Ontology cs"

text \<open>
  The calls of the example up to its three \<open>add_schema\<close>, and all of them; \<open>t0\<close> and
  \<open>priority\<close> take their defaults, \<open>0.0\<close> and \<open>0\<close>.
\<close>

definition schema_calls :: "client_call list" where
  "schema_calls = [AddSchema tea_schema, AddSchema whale_schema, AddSchema petunia_schema]"

definition quickstart_calls :: "client_call list" where
  "quickstart_calls = schema_calls @
     [Spawn ''tea_entity'' ''tea-party'' ''tea-party-with-Vogon'' 0 0 0,
      Spawn ''whale_entity'' ''whale'' ''spontaneous-whale-appearance'' 1 0 0,
      Spawn ''petunia_entity'' ''petunia'' ''petunia-uprising'' 2 0 0,
      AddDependency ''whale_entity'' ''tea_entity'' ''supports'',
      AddDependency ''petunia_entity'' ''whale_entity'' ''supports'']"

definition onto_schemas :: ontology where
  "onto_schemas = run quickstart_fns schema_calls"

definition onto :: ontology where
  "onto = run quickstart_fns quickstart_calls"

text \<open>The entities that the three \<open>spawn\<close> calls of the example return.\<close>

definition tea_entity :: entity where
  "tea_entity = \<lparr>eid = ''tea_entity'', schema = tea_schema,
     goal = goal_event ''tea_entity'' ''tea-party-with-Vogon'' 0 0,
     timeline = [tea_event], generator = 0, priority = 0\<rparr>"

definition whale_entity :: entity where
  "whale_entity = \<lparr>eid = ''whale_entity'', schema = whale_schema,
     goal = goal_event ''whale_entity'' ''spontaneous-whale-appearance'' 0 0,
     timeline = [whale_event], generator = 1, priority = 0\<rparr>"

definition petunia_entity :: entity where
  "petunia_entity = \<lparr>eid = ''petunia_entity'', schema = petunia_schema,
     goal = goal_event ''petunia_entity'' ''petunia-uprising'' 0 0,
     timeline = [petunia_event], generator = 2, priority = 0\<rparr>"

text \<open>The kinds stored for the pair \<open>(depender, dependee)\<close>.\<close>

definition edge_kinds :: "ontology \<Rightarrow> string \<Rightarrow> string \<Rightarrow> string list" where
  "edge_kinds ont depender dependee =
     map snd (filter (\<lambda>(x, kind). x = dependee) (dependencies_of ont depender))"

text \<open>The kinds that one inner dict \<open>d\<close> stores under the key \<open>e\<close>.\<close>

definition kinds_in :: "string \<Rightarrow> (string \<times> string) list \<Rightarrow> string list" where
  "kinds_in e d = map snd (filter (\<lambda>p. fst p = e) d)"

text \<open>
  The shape of the dependency map that every sequence of calls keeps: dict keys are not
  repeated, and every depender and every dependee is a registered entity.
\<close>

definition graph_ok :: "ontology \<Rightarrow> bool" where
  "graph_ok ont =
     (distinct (map fst (deps ont)) \<and>
      list_all (\<lambda>(a, d). has_key (entities_map ont) a \<and> distinct (map fst d) \<and>
                  list_all (\<lambda>(b, k). has_key (entities_map ont) b) d) (deps ont))"

section \<open>Navigator\<close>

text \<open>
  Modelled from the spec: \<open>Navigator.multi_entity_schedule\<close> lives in
  \<^verbatim>\<open>chronos/navigator.py\<close>, which is not among the sources; the definitions of this
  section follow section 4.2 of the specification. Its only failure is \<open>CycleError\<close>.
\<close>

datatype schedule_error = CycleError

text \<open>
  Modelled from the spec: the scoring capability of \<open>InnovationMetric\<close>
  (\<^verbatim>\<open>chronos/manifold.py\<close>, not among the sources), a real number per entity; its formula
  belongs to that collaborator, so the score is a parameter of the scheduler.
\<close>

type_synonym metric = "entity \<Rightarrow> real"

text \<open>A metric that scores every entity alike.\<close>

definition zero_score :: metric where
  "zero_score e = 0"

text \<open>
  Modelled from the spec: an entity is eligible when it has no unresolved dependency, that
  is, every one of its dependees has been merged.
\<close>

definition eligible :: "ontology \<Rightarrow> entity list \<Rightarrow> entity \<Rightarrow> bool" where
  "eligible ont done e =
     list_all (\<lambda>(dependee, kind). dependee \<in> set (map eid done)) (dependencies e ont)"

text \<open>
  Modelled from the spec: among eligible entities the one with the higher effective
  priority is scheduled earlier, and on equal priority the one with the higher score.
\<close>

definition merged_before :: "metric \<Rightarrow> ontology \<Rightarrow> entity \<Rightarrow> entity \<Rightarrow> bool" where
  "merged_before score ont a b =
     (effective_priority b ont < effective_priority a ont \<or>
      (effective_priority a ont = effective_priority b ont \<and> score b < score a))"

text \<open>
  Modelled from the spec: the entity merged next among the candidates. The specification
  leaves a full tie open; the earliest candidate in the ontology's insertion order wins.
\<close>

fun pick :: "metric \<Rightarrow> ontology \<Rightarrow> entity list \<Rightarrow> entity option" where
  "pick score ont [] = None"
| "pick score ont (e # es) =
     (case pick score ont es of
        None \<Rightarrow> Some e
      | Some b \<Rightarrow> if merged_before score ont b e then Some b else Some e)"

text \<open>
  Modelled from the spec: step 1 of \<open>multi_entity_schedule\<close>, the topological ordering.
  The loop moves one eligible entity at a time from \<open>remaining\<close> to the end of \<open>done\<close>;
  when entities remain and none is eligible the dependency graph has a cycle and the call
  fails with \<open>CycleError\<close>. Each round removes one entity, so the loop ends.
\<close>

function topological_order ::
  "metric \<Rightarrow> ontology \<Rightarrow> entity list \<Rightarrow> entity list \<Rightarrow> schedule_error + entity list" where
  "topological_order score ont remaining done =
     (if remaining = [] then Inr done
      else
        (case pick score ont (filter (eligible ont done) remaining) of
           None \<Rightarrow> Inl CycleError
         | Some e \<Rightarrow> topological_order score ont (remove1 e remaining) (done @ [e])))"
  by pat_completeness auto
termination
proof (relation "measure (\<lambda>(score, ont, remaining, done). length remaining)")
  show "wf (measure (\<lambda>(score, ont, remaining, done). length remaining))" by simp
next
  fix score :: metric and ont remaining and don :: "entity list" and e
  assume p: "pick score ont (filter (eligible ont don) remaining) = Some e"
  have "x \<in> set es" if "pick score ont es = Some x" for es x
    using that by (induction es arbitrary: x) (auto split: option.splits if_splits)
  from this [OF p] have m: "e \<in> set remaining" by simp
  then have "0 < length remaining" by (rule length_pos_if_in_set)
  with m show "((score, ont, remove1 e remaining, don @ [e]), (score, ont, remaining, don))
      \<in> measure (\<lambda>(score, ont, remaining, done). length remaining)"
    by (simp add: length_remove1)
qed

declare topological_order.simps [simp del]

text \<open>Modelled from the spec: the end time \<open>t0 + dt\<close> of an event.\<close>

definition end_time :: "change_event \<Rightarrow> real" where
  "end_time ev = ev_t0 ev + ev_dt ev"

text \<open>Modelled from the spec: the latest end time of some events, if there are any.\<close>

fun latest_end :: "changeset \<Rightarrow> real option" where
  "latest_end [] = None"
| "latest_end (ev # evs) =
     (case latest_end evs of
        None \<Rightarrow> Some (end_time ev)
      | Some t \<Rightarrow> Some (max (end_time ev) t))"

text \<open>Modelled from the spec: the start of the earliest of some events, if there are any.\<close>

fun earliest_start :: "changeset \<Rightarrow> real option" where
  "earliest_start [] = None"
| "earliest_start (ev # evs) =
     (case earliest_start evs of
        None \<Rightarrow> Some (ev_t0 ev)
      | Some t \<Rightarrow> Some (min (ev_t0 ev) t))"

text \<open>Modelled from the spec: an event moved later by \<open>gap\<close>.\<close>

definition offset :: "real \<Rightarrow> change_event \<Rightarrow> change_event" where
  "offset gap ev = ev\<lparr>ev_t0 := ev_t0 ev + gap\<rparr>"

text \<open>
  Modelled from the spec: the slack event of an entity: identifier prefixed \<open>slack\<close>,
  \<open>t0\<close> the point of resumption, \<open>dt\<close> the size of the gap, \<open>prob = 1.0\<close>.
\<close>

definition slack_event :: "entity \<Rightarrow> real \<Rightarrow> real \<Rightarrow> change_event" where
  "slack_event e resume gap =
     \<lparr>ev_eid = ''slack::'' @ eid e, ev_t0 = resume, ev_dt = gap, ev_prob = 1, ev_meta = []\<rparr>"

text \<open>
  Modelled from the spec: the events that the dependees of an entity have contributed;
  \<open>contributed\<close> maps the eid of each merged entity to its contributed events.
\<close>

definition dependee_events ::
  "ontology \<Rightarrow> (string \<times> changeset) list \<Rightarrow> entity \<Rightarrow> changeset" where
  "dependee_events ont contributed e =
     concat (map (\<lambda>(dependee, kind).
       case map_of contributed dependee of None \<Rightarrow> [] | Some evs \<Rightarrow> evs)
       (dependencies e ont))"

text \<open>
  Modelled from the spec: step 2 for one entity: the slack events (one or none) and the
  entity's own events. When the earliest own event would start before the latest end of
  the dependees' contributed events, one slack event is inserted and the own events are
  offset by the gap; otherwise the own events are appended as they are.
\<close>

definition contribution ::
  "ontology \<Rightarrow> (string \<times> changeset) list \<Rightarrow> entity \<Rightarrow> changeset \<times> changeset" where
  "contribution ont contributed e =
     (case (latest_end (dependee_events ont contributed e), earliest_start (timeline e)) of
        (Some resume, Some start) \<Rightarrow>
          if start < resume
          then ([slack_event e resume (resume - start)],
                map (offset (resume - start)) (timeline e))
          else ([], timeline e)
      | _ \<Rightarrow> ([], timeline e))"

text \<open>
  Modelled from the spec: steps 2 and 3, the walk over the entities in topological order
  that appends to the combined timeline any slack event and then the entity's events.
\<close>

fun merge ::
  "ontology \<Rightarrow> entity list \<Rightarrow> (string \<times> changeset) list \<Rightarrow> changeset \<Rightarrow> changeset" where
  "merge ont [] contributed combined = combined"
| "merge ont (e # es) contributed combined =
     (case contribution ont contributed e of
        (slack, evs) \<Rightarrow>
          merge ont es (AList.update (eid e) evs contributed) (combined @ slack @ evs))"

text \<open>
  Modelled from the spec: \<open>Navigator.multi_entity_schedule(ontology)\<close>: the combined
  timeline, or \<open>CycleError\<close>.
\<close>

definition multi_entity_schedule :: "metric \<Rightarrow> ontology \<Rightarrow> schedule_error + changeset" where
  "multi_entity_schedule score ont =
     (case topological_order score ont (entities ont) [] of
        Inl err \<Rightarrow> Inl err
      | Inr order \<Rightarrow> Inr (merge ont order [] ChangeSet))"

text \<open>
  The dependency graph as a relation: \<open>(a, b)\<close> when \<open>a\<close> depends on \<open>b\<close>. A self-loop
  is a cycle of it.
\<close>

definition dep_rel :: "ontology \<Rightarrow> (string \<times> string) set" where
  "dep_rel ont = {(a, b). has_key (dependencies_of ont a) b}"

text \<open>Every entity of the ontology is registered under its own eid.\<close>

definition entities_ok :: "ontology \<Rightarrow> bool" where
  "entities_ok ont = list_all (\<lambda>(k, e). eid e = k) (entities_map ont)"

text \<open>In the list \<open>es\<close>, every entity comes after all of its dependees.\<close>

definition dependees_first :: "ontology \<Rightarrow> entity list \<Rightarrow> bool" where
  "dependees_first ont es =
     list_all (\<lambda>i. eligible ont (take i es) (es ! i)) [0..<length es]"

section \<open>Basic facts\<close>

lemma py_or_cases:
  "py_or r t = (case r of None \<Rightarrow> t | Some cs \<Rightarrow> if cs = [] then t else cs)"
  by (cases r) (auto simp: truthy_def)

lemma seeded_simps:
  "eid (seeded_entity i s n g t p) = i"
  "schema (seeded_entity i s n g t p) = s"
  "goal (seeded_entity i s n g t p) = goal_event i n t p"
  "timeline (seeded_entity i s n g t p) = [goal_event i n t p]"
  "generator (seeded_entity i s n g t p) = g"
  "priority (seeded_entity i s n g t p) = p"
  by (simp_all add: seeded_entity_def Let_def ChangeSet_def add_def)

lemma spawn_Inr_iff:
  "spawn fns ont entity_id tid goal_name g t0 prio = (Inr ent, ont') \<longleftrightarrow>
   (\<not> has_key (entities_map ont) entity_id \<and>
    (\<exists>sch r. map_of (schemas ont) tid = Some sch \<and>
       fns g (seeded_entity entity_id sch goal_name g t0 prio) = Inr r \<and>
       ent = (seeded_entity entity_id sch goal_name g t0 prio)
               \<lparr>timeline := py_or r (timeline (seeded_entity entity_id sch goal_name g t0 prio))\<rparr> \<and>
       ont' = ont\<lparr>entities_map := AList.update entity_id ent (entities_map ont)\<rparr>))"
  by (auto simp: spawn_def schema_lookup_def Let_def split: sum.splits option.splits)

lemma onto_schemas_eq:
  "onto_schemas = \<lparr>schemas = [(''tea-party'', tea_schema), (''whale'', whale_schema),
       (''petunia'', petunia_schema)], entities_map = [], deps = []\<rparr>"
  by (simp add: onto_schemas_def run_def schema_calls_def add_schema_def Ontology_def
      has_key_def tea_schema_def whale_schema_def petunia_schema_def)

lemma tea_spawn:
  "spawn quickstart_fns onto_schemas ''tea_entity'' ''tea-party'' ''tea-party-with-Vogon'' 0 0 0 =
     (Inr tea_entity, onto_schemas\<lparr>entities_map := [(''tea_entity'', tea_entity)]\<rparr>)"
  by (simp add: spawn_def onto_schemas_eq has_key_def schema_lookup_def quickstart_fns_def
      tea_generator_def seeded_entity_def Let_def ChangeSet_def add_def truthy_def
      tea_entity_def)

lemma onto_eq:
  "onto = \<lparr>schemas = [(''tea-party'', tea_schema), (''whale'', whale_schema),
              (''petunia'', petunia_schema)],
           entities_map = [(''tea_entity'', tea_entity), (''whale_entity'', whale_entity),
              (''petunia_entity'', petunia_entity)],
           deps = [(''whale_entity'', [(''tea_entity'', ''supports'')]),
              (''petunia_entity'', [(''whale_entity'', ''supports'')])]\<rparr>"
  by (simp add: onto_def run_def quickstart_calls_def schema_calls_def add_schema_def
      Ontology_def has_key_def tea_schema_def whale_schema_def petunia_schema_def
      spawn_def schema_lookup_def quickstart_fns_def tea_generator_def whale_generator_def
      petunia_generator_def seeded_entity_def Let_def ChangeSet_def add_def truthy_def
      tea_entity_def whale_entity_def petunia_entity_def add_dependency_def)

section \<open>Entity.regenerate\<close>

text \<open>
  C8. A call of \<open>regenerate\<close> changes at most the field \<open>timeline\<close> of its entity: the
  entity after the call, whether the generator returned or raised, is the entity before
  the call with some timeline put in, so \<open>eid\<close>, \<open>schema\<close>, \<open>goal\<close>, \<open>generator\<close> and
  \<open>priority\<close> are as they were.
\<close>

theorem regenerate_frame:
  "snd (regenerate fns e) = e\<lparr>timeline := timeline (snd (regenerate fns e))\<rparr> \<and>
   eid (snd (regenerate fns e)) = eid e \<and>
   schema (snd (regenerate fns e)) = schema e \<and>
   goal (snd (regenerate fns e)) = goal e \<and>
   generator (snd (regenerate fns e)) = generator e \<and>
   priority (snd (regenerate fns e)) = priority e"
  by (auto simp: regenerate_def split: sum.splits)

text \<open>
  C7. A generator that returns \<open>None\<close> keeps the timeline. \<open>regenerate\<close> then leaves the
  entity, and so its timeline, exactly as it was. A \<open>spawn\<close> that passes its two checks
  and whose generator returns \<open>None\<close> on the seeded entity returns, and registers, an
  entity whose timeline is the seeded one: the goal event and nothing else.
\<close>

theorem generator_None_keeps_timeline:
  "(fns (generator e) e = Inr None \<longrightarrow>
      regenerate fns e = (Inr (), e) \<and> timeline (snd (regenerate fns e)) = timeline e) \<and>
   (\<not> has_key (entities_map ont) entity_id \<and> map_of (schemas ont) tid = Some sch \<and>
    fns g (seeded_entity entity_id sch goal_name g t0 prio) = Inr None \<longrightarrow>
      (\<exists>ent. fst (spawn fns ont entity_id tid goal_name g t0 prio) = Inr ent \<and>
         timeline ent = [goal_event entity_id goal_name t0 prio] \<and>
         timeline ent = timeline (seeded_entity entity_id sch goal_name g t0 prio) \<and>
         map_of (entities_map (snd (spawn fns ont entity_id tid goal_name g t0 prio))) entity_id
           = Some ent))"
  by (auto simp: regenerate_def spawn_def schema_lookup_def Let_def seeded_simps
      AList.update_conv')

theorem generator_None_keeps_timeline_witness:
  "keep_fns (generator tea_entity) tea_entity = Inr None \<and>
   regenerate keep_fns tea_entity = (Inr (), tea_entity) \<and>
   \<not> has_key (entities_map onto_schemas) ''a'' \<and>
   map_of (schemas onto_schemas) ''tea-party'' = Some tea_schema \<and>
   keep_fns 0 (seeded_entity ''a'' tea_schema ''g'' 0 0 0) = Inr None \<and>
   fst (spawn keep_fns onto_schemas ''a'' ''tea-party'' ''g'' 0 0 0)
     = Inr (seeded_entity ''a'' tea_schema ''g'' 0 0 0) \<and>
   timeline (seeded_entity ''a'' tea_schema ''g'' 0 0 0) = [goal_event ''a'' ''g'' 0 0]"
proof -
  have h1: "\<not> has_key (entities_map onto_schemas) ''a''"
    by (simp add: onto_schemas_eq has_key_def)
  have h2: "map_of (schemas onto_schemas) ''tea-party'' = Some tea_schema"
    by (simp add: onto_schemas_eq)
  have h3: "keep_fns r e = Inr None" for r e
    by (simp add: keep_fns_def)
  from generator_None_keeps_timeline [of keep_fns tea_entity
      onto_schemas "''a''" "''tea-party''" tea_schema 0 "''g''" 0 0] h1 h2 h3
  have r: "regenerate keep_fns tea_entity = (Inr (), tea_entity)"
    and "\<exists>ent. fst (spawn keep_fns onto_schemas ''a'' ''tea-party'' ''g'' 0 0 0) = Inr ent \<and>
      timeline ent = [goal_event ''a'' ''g'' 0 0]"
    by blast+
  moreover have "fst (spawn keep_fns onto_schemas ''a'' ''tea-party'' ''g'' 0 0 0)
     = Inr (seeded_entity ''a'' tea_schema ''g'' 0 0 0)"
    using h1 h2 by (simp add: spawn_def schema_lookup_def h3 Let_def)
  ultimately show ?thesis using h1 h2 h3 by auto
qed

section \<open>Ontology.spawn\<close>

text \<open>
  C6. A successful \<open>spawn\<close> returns an entity whose goal is the event with eid
  \<open>entity_id::goal::goal_name\<close>, the given \<open>t0\<close>, \<open>dt = 0\<close>, \<open>prob = 1\<close> and \<open>meta\<close>
  mapping \<open>priority\<close> to the given priority. The generator was called on the partly
  built entity, whose timeline holds exactly that event: it returned some \<open>r\<close> there, the
  returned entity is the seeded one with \<open>r or timeline\<close> as its timeline, and any table
  of functions that agrees with this one at that single argument gives the same result.
\<close>

theorem spawn_goal_event:
  assumes "spawn fns ont entity_id tid goal_name g t0 prio = (Inr ent, ont')"
  shows "goal ent = \<lparr>ev_eid = entity_id @ ''::goal::'' @ goal_name, ev_t0 = t0, ev_dt = 0,
                      ev_prob = 1, ev_meta = [(''priority'', PyInt prio)]\<rparr> \<and>
         (\<exists>sch r. map_of (schemas ont) tid = Some sch \<and>
            fns g \<lparr>eid = entity_id, schema = sch, goal = goal ent, timeline = [goal ent],
                   generator = g, priority = prio\<rparr> = Inr r \<and>
            ent = \<lparr>eid = entity_id, schema = sch, goal = goal ent,
                   timeline = py_or r [goal ent], generator = g, priority = prio\<rparr> \<and>
            (\<forall>fns'. fns' g \<lparr>eid = entity_id, schema = sch, goal = goal ent,
                        timeline = [goal ent], generator = g, priority = prio\<rparr> = Inr r \<longrightarrow>
               spawn fns' ont entity_id tid goal_name g t0 prio = (Inr ent, ont')))"
proof -
  from assms obtain sch r where
    nk: "\<not> has_key (entities_map ont) entity_id" and
    s: "map_of (schemas ont) tid = Some sch" and
    r: "fns g (seeded_entity entity_id sch goal_name g t0 prio) = Inr r" and
    e: "ent = (seeded_entity entity_id sch goal_name g t0 prio)
               \<lparr>timeline := py_or r (timeline (seeded_entity entity_id sch goal_name g t0 prio))\<rparr>" and
    o: "ont' = ont\<lparr>entities_map := AList.update entity_id ent (entities_map ont)\<rparr>"
    unfolding spawn_Inr_iff by blast
  have g: "goal ent = goal_event entity_id goal_name t0 prio"
    by (simp add: e seeded_simps)
  have sd: "seeded_entity entity_id sch goal_name g t0 prio =
      \<lparr>eid = entity_id, schema = sch, goal = goal ent, timeline = [goal ent],
       generator = g, priority = prio\<rparr>"
    by (simp add: g seeded_entity_def Let_def ChangeSet_def add_def)
  have e': "ent = \<lparr>eid = entity_id, schema = sch, goal = goal ent,
                   timeline = py_or r [goal ent], generator = g, priority = prio\<rparr>"
    using e unfolding seeded_simps g[symmetric] unfolding sd by simp
  have all: "\<forall>fns'. fns' g \<lparr>eid = entity_id, schema = sch, goal = goal ent,
                        timeline = [goal ent], generator = g, priority = prio\<rparr> = Inr r \<longrightarrow>
               spawn fns' ont entity_id tid goal_name g t0 prio = (Inr ent, ont')"
  proof (intro allI impI)
    fix fns' :: fn_table
    assume "fns' g \<lparr>eid = entity_id, schema = sch, goal = goal ent,
                        timeline = [goal ent], generator = g, priority = prio\<rparr> = Inr r"
    then have "fns' g (seeded_entity entity_id sch goal_name g t0 prio) = Inr r"
      unfolding sd .
    with nk s e o show "spawn fns' ont entity_id tid goal_name g t0 prio = (Inr ent, ont')"
      unfolding spawn_Inr_iff by blast
  qed
  have "goal ent = \<lparr>ev_eid = entity_id @ ''::goal::'' @ goal_name, ev_t0 = t0, ev_dt = 0,
                      ev_prob = 1, ev_meta = [(''priority'', PyInt prio)]\<rparr>"
    by (simp add: g goal_event_def)
  moreover have "fns g \<lparr>eid = entity_id, schema = sch, goal = goal ent, timeline = [goal ent],
                   generator = g, priority = prio\<rparr> = Inr r"
    using r unfolding sd .
  ultimately show ?thesis using s e' all by blast
qed

theorem spawn_goal_event_witness:
  "spawn quickstart_fns onto_schemas ''tea_entity'' ''tea-party'' ''tea-party-with-Vogon'' 0 0 0 =
     (Inr tea_entity, onto_schemas\<lparr>entities_map := [(''tea_entity'', tea_entity)]\<rparr>) \<and>
   goal tea_entity =
     \<lparr>ev_eid = ''tea_entity::goal::tea-party-with-Vogon'', ev_t0 = 0, ev_dt = 0, ev_prob = 1,
      ev_meta = [(''priority'', PyInt 0)]\<rparr>"
proof -
  have "goal tea_entity =
     \<lparr>ev_eid = ''tea_entity::goal::tea-party-with-Vogon'', ev_t0 = 0, ev_dt = 0, ev_prob = 1,
      ev_meta = [(''priority'', PyInt 0)]\<rparr>"
    using conjunct1 [OF spawn_goal_event [OF tea_spawn]] by simp
  then show ?thesis using tea_spawn by blast
qed

text \<open>
  C1, as stated, fails. The first \<open>spawn\<close> of the quickstart example succeeds, and the
  timeline of the entity it returns is the one event of \<open>tea_generator\<close>; the goal
  event \<open>tea_entity::goal::tea-party-with-Vogon\<close> is not in it.
\<close>

theorem spawn_timeline_lacks_goal:
  "fst (spawn quickstart_fns onto_schemas ''tea_entity'' ''tea-party''
          ''tea-party-with-Vogon'' 0 0 0) = Inr tea_entity \<and>
   timeline tea_entity = [tea_event] \<and>
   goal tea_entity = goal_event ''tea_entity'' ''tea-party-with-Vogon'' 0 0 \<and>
   goal tea_entity \<notin> set (timeline tea_entity)"
  by (simp add: tea_spawn tea_entity_def goal_event_def tea_event_def)

text \<open>
  C1, amended. After a successful \<open>spawn\<close> the field \<open>goal\<close> of the entity is the goal
  event. Its timeline is the seeded one, the goal event alone, when the generator returned
  \<open>None\<close> or an empty ChangeSet, and is otherwise the ChangeSet that the generator
  returned. So the timeline contains the goal event exactly when the generator returned
  \<open>None\<close>, an empty ChangeSet, or a ChangeSet that itself contains the goal event.
\<close>

theorem spawn_timeline:
  assumes "spawn fns ont entity_id tid goal_name g t0 prio = (Inr ent, ont')"
  shows "goal ent = goal_event entity_id goal_name t0 prio \<and>
         (\<exists>sch r. map_of (schemas ont) tid = Some sch \<and>
            fns g (seeded_entity entity_id sch goal_name g t0 prio) = Inr r \<and>
            timeline ent = (case r of None \<Rightarrow> [goal ent]
                            | Some cs \<Rightarrow> if cs = [] then [goal ent] else cs) \<and>
            (goal ent \<in> set (timeline ent) \<longleftrightarrow>
               r = None \<or> r = Some [] \<or> (\<exists>cs. r = Some cs \<and> goal ent \<in> set cs)))"
proof -
  from assms obtain sch r where
    s: "map_of (schemas ont) tid = Some sch" and
    r: "fns g (seeded_entity entity_id sch goal_name g t0 prio) = Inr r" and
    e: "ent = (seeded_entity entity_id sch goal_name g t0 prio)
               \<lparr>timeline := py_or r (timeline (seeded_entity entity_id sch goal_name g t0 prio))\<rparr>"
    unfolding spawn_Inr_iff by blast
  have g: "goal ent = goal_event entity_id goal_name t0 prio"
    by (simp add: e seeded_simps)
  have t: "timeline ent = (case r of None \<Rightarrow> [goal ent]
                            | Some cs \<Rightarrow> if cs = [] then [goal ent] else cs)"
    unfolding g by (simp add: e seeded_simps py_or_cases)
  have m: "goal ent \<in> set (timeline ent) \<longleftrightarrow>
               r = None \<or> r = Some [] \<or> (\<exists>cs. r = Some cs \<and> goal ent \<in> set cs)"
    by (subst t) (cases r; auto)
  from g s r t m show ?thesis by blast
qed

theorem spawn_timeline_witness:
  "spawn quickstart_fns onto_schemas ''tea_entity'' ''tea-party'' ''tea-party-with-Vogon'' 0 0 0 =
     (Inr tea_entity, onto_schemas\<lparr>entities_map := [(''tea_entity'', tea_entity)]\<rparr>) \<and>
   goal tea_entity = goal_event ''tea_entity'' ''tea-party-with-Vogon'' 0 0 \<and>
   quickstart_fns 0 (seeded_entity ''tea_entity'' tea_schema ''tea-party-with-Vogon'' 0 0 0)
     = Inr (Some [tea_event]) \<and>
   timeline tea_entity = [tea_event] \<and>
   goal tea_entity \<notin> set [tea_event]"
proof -
  have c: "tea_event \<noteq> goal_event ''tea_entity'' ''tea-party-with-Vogon'' 0 0"
    by (simp add: tea_event_def goal_event_def)
  have q: "quickstart_fns 0 (seeded_entity ''tea_entity'' tea_schema ''tea-party-with-Vogon'' 0 0 0)
     = Inr (Some [tea_event])"
    by (simp add: quickstart_fns_def tea_generator_def)
  from spawn_timeline [OF tea_spawn] obtain sch r where
    g: "goal tea_entity = goal_event ''tea_entity'' ''tea-party-with-Vogon'' 0 0" and
    s: "map_of (schemas onto_schemas) ''tea-party'' = Some sch" and
    r: "quickstart_fns 0 (seeded_entity ''tea_entity'' sch ''tea-party-with-Vogon'' 0 0 0) = Inr r" and
    t: "timeline tea_entity = (case r of None \<Rightarrow> [goal tea_entity]
          | Some cs \<Rightarrow> if cs = [] then [goal tea_entity] else cs)"
    by blast
  from s have "sch = tea_schema" by (simp add: onto_schemas_eq)
  with r q have "r = Some [tea_event]" by simp
  with t have t': "timeline tea_entity = [tea_event]" by simp
  from c g have "goal tea_entity \<notin> set [tea_event]" by simp
  with g q t' tea_spawn show ?thesis by blast
qed

text \<open>
  C3. \<open>spawn\<close> raises the \<open>KeyError\<close> that says the entity already exists (DuplicateKey)
  when \<open>entity_id\<close> is registered, and a \<open>KeyError\<close> when \<open>type_id\<close> is not a registered
  schema: the one of the failed lookup, carrying \<open>type_id\<close> (NotFound), unless
  \<open>entity_id\<close> is registered too, since that check comes first. An exception of the
  generator is passed on. Whatever the exception, the ontology after the call is the
  ontology before it: same entity map, same schema map, same dependency map.
\<close>

theorem spawn_failure:
  "(has_key (entities_map ont) entity_id \<longrightarrow>
      fst (spawn fns ont entity_id tid goal_name g t0 prio) =
        Inl (KeyError (''Entity '' @ [CHR 0x27] @ entity_id @ [CHR 0x27] @ '' already exists''))) \<and>
   (map_of (schemas ont) tid = None \<longrightarrow>
      (\<exists>m. fst (spawn fns ont entity_id tid goal_name g t0 prio) = Inl (KeyError m))) \<and>
   (\<not> has_key (entities_map ont) entity_id \<and> map_of (schemas ont) tid = None \<longrightarrow>
      fst (spawn fns ont entity_id tid goal_name g t0 prio) = Inl (KeyError tid)) \<and>
   (\<forall>sch e. \<not> has_key (entities_map ont) entity_id \<and> map_of (schemas ont) tid = Some sch \<and>
       fns g (seeded_entity entity_id sch goal_name g t0 prio) = Inl e \<longrightarrow>
      fst (spawn fns ont entity_id tid goal_name g t0 prio) = Inl e) \<and>
   (\<forall>e. fst (spawn fns ont entity_id tid goal_name g t0 prio) = Inl e \<longrightarrow>
      snd (spawn fns ont entity_id tid goal_name g t0 prio) = ont \<and>
      entities_map (snd (spawn fns ont entity_id tid goal_name g t0 prio)) = entities_map ont \<and>
      schemas (snd (spawn fns ont entity_id tid goal_name g t0 prio)) = schemas ont \<and>
      deps (snd (spawn fns ont entity_id tid goal_name g t0 prio)) = deps ont)"
proof (intro conjI allI impI)
  fix e
  assume f: "fst (spawn fns ont entity_id tid goal_name g t0 prio) = Inl e"
  then show u: "snd (spawn fns ont entity_id tid goal_name g t0 prio) = ont"
    by (auto simp: spawn_def schema_lookup_def Let_def split: if_splits option.splits sum.splits)
  show "entities_map (snd (spawn fns ont entity_id tid goal_name g t0 prio)) = entities_map ont"
    "schemas (snd (spawn fns ont entity_id tid goal_name g t0 prio)) = schemas ont"
    "deps (snd (spawn fns ont entity_id tid goal_name g t0 prio)) = deps ont"
    by (simp_all only: u)
qed (auto simp: spawn_def schema_lookup_def Let_def)

theorem spawn_failure_witness:
  "has_key (entities_map onto) ''tea_entity'' \<and>
   spawn quickstart_fns onto ''tea_entity'' ''tea-party'' ''again'' 0 0 0 =
     (Inl (KeyError (''Entity '' @ [CHR 0x27] @ ''tea_entity'' @ [CHR 0x27] @ '' already exists'')),
      onto) \<and>
   \<not> has_key (entities_map onto) ''vogon_entity'' \<and>
   map_of (schemas onto) ''vogon'' = None \<and>
   spawn quickstart_fns onto ''vogon_entity'' ''vogon'' ''poetry'' 0 0 0 =
     (Inl (KeyError ''vogon''), onto) \<and>
   map_of (schemas onto) ''whale'' = Some whale_schema \<and>
   spawn failing_fns onto ''vogon_entity'' ''whale'' ''poetry'' 0 0 0 =
     (Inl (Raised ''boom''), onto)"
proof -
  have k: "has_key (entities_map onto) ''tea_entity''"
    and n: "\<not> has_key (entities_map onto) ''vogon_entity''"
    and v: "map_of (schemas onto) ''vogon'' = None"
    and w: "map_of (schemas onto) ''whale'' = Some whale_schema"
    by (simp_all add: onto_eq has_key_def)
  note a = spawn_failure [of onto "''tea_entity''" quickstart_fns "''tea-party''" "''again''" 0 0 0]
  note b = spawn_failure [of onto "''vogon_entity''" quickstart_fns "''vogon''" "''poetry''" 0 0 0]
  note c = spawn_failure [of onto "''vogon_entity''" failing_fns "''whale''"
      "''poetry''" 0 0 0]
  have 1: "spawn quickstart_fns onto ''tea_entity'' ''tea-party'' ''again'' 0 0 0 =
     (Inl (KeyError (''Entity '' @ [CHR 0x27] @ ''tea_entity'' @ [CHR 0x27] @ '' already exists'')),
      onto)"
    using a k by (intro prod_eqI) auto
  have 2: "spawn quickstart_fns onto ''vogon_entity'' ''vogon'' ''poetry'' 0 0 0 =
     (Inl (KeyError ''vogon''), onto)"
    using b n v by (intro prod_eqI) auto
  have 3: "spawn failing_fns onto ''vogon_entity'' ''whale'' ''poetry'' 0 0 0 =
     (Inl (Raised ''boom''), onto)"
    using c n w by (intro prod_eqI) (auto simp: failing_fns_def)
  from k n v w 1 2 3 show ?thesis by blast
qed

section \<open>The dependency graph\<close>

lemma set_update_subset: "set (AList.update k v al) \<subseteq> insert (k, v) (set al)"
  by (induction al) auto

lemma update_mem: "(k, v) \<in> set (AList.update k v al)"
  by (induction al) auto

lemma has_key_iff: "has_key al k \<longleftrightarrow> k \<in> fst ` set al"
  by (simp add: has_key_def map_of_eq_None_iff)

lemma has_key_update: "has_key (AList.update k v al) x \<longleftrightarrow> x = k \<or> has_key al x"
  by (auto simp: has_key_def AList.update_conv')

lemma dependents_of_mem:
  "(a, k) \<in> set (dependents_of ont e) \<longleftrightarrow> (\<exists>d. (a, d) \<in> set (deps ont) \<and> (e, k) \<in> set d)"
  by (fastforce simp: dependents_of_def split: if_splits)

lemma inner_concat:
  "concat (map (\<lambda>(dependee, kind). if dependee = e then [(a, kind)] else []) d)
     = map (\<lambda>k. (a, k)) (kinds_in e d)"
  by (induction d) (auto simp: kinds_in_def)

lemma dependents_of_alt:
  "dependents_of ont e = concat (map (\<lambda>(a, d). map (\<lambda>k. (a, k)) (kinds_in e d)) (deps ont))"
  unfolding dependents_of_def inner_concat[symmetric] ..

lemma length_dependents_of:
  "length (dependents_of ont e) = sum_list (map (\<lambda>p. length (kinds_in e (snd p))) (deps ont))"
  unfolding dependents_of_alt by (induction "deps ont" arbitrary: ont) (auto simp: length_concat comp_def split_def)

lemma kinds_in_update_same:
  "kinds_in e (AList.update e k d) = (if e \<in> fst ` set d then k # tl (kinds_in e d) else kinds_in e d @ [k])"
  by (induction d) (auto simp: kinds_in_def)

lemma sum_list_update:
  fixes f :: "'k \<times> 'v \<Rightarrow> nat"
  shows "sum_list (map f (AList.update a v al)) + (case map_of al a of None \<Rightarrow> 0 | Some d \<Rightarrow> f (a, d))
       = sum_list (map f al) + f (a, v)"
  by (induction al) auto

lemma kinds_in_Nil_iff: "kinds_in e d = [] \<longleftrightarrow> e \<notin> fst ` set d"
  by (induction d) (auto simp: kinds_in_def)

lemma add_dependency_ok:
  "has_key (entities_map ont) a \<Longrightarrow> has_key (entities_map ont) b \<Longrightarrow>
   add_dependency ont a b kind =
     (Inr (), ont\<lparr>deps := AList.update a (AList.update b kind (dependencies_of ont a)) (deps ont)\<rparr>)"
  by (simp add: add_dependency_def dependencies_of_def Let_def)

lemma add_dependency_fail:
  "\<not> has_key (entities_map ont) a \<or> \<not> has_key (entities_map ont) b \<Longrightarrow>
   add_dependency ont a b kind = (Inl (KeyError ''Both entities must exist before linking''), ont)"
  by (auto simp add: add_dependency_def)

lemma new_depender_count:
  assumes "has_key (entities_map ont) a" "has_key (entities_map ont) e"
    and new: "\<forall>k. (a, k) \<notin> set (dependents_of ont e)"
  shows "length (dependents_of (snd (add_dependency ont a e kind)) e)
           = length (dependents_of ont e) + 1"
proof -
  let ?f = "\<lambda>p :: string \<times> (string \<times> string) list. length (kinds_in e (snd p))"
  let ?inner = "dependencies_of ont a"
  have none: "kinds_in e ?inner = []"
  proof (cases "map_of (deps ont) a")
    case None
    then show ?thesis by (simp add: dependencies_of_def kinds_in_def)
  next
    case (Some d)
    then have "(a, d) \<in> set (deps ont)" by (rule map_of_SomeD)
    with new have "\<forall>k. (e, k) \<notin> set d" by (auto simp: dependents_of_mem)
    then have "e \<notin> fst ` set d" by force
    with Some show ?thesis by (simp add: dependencies_of_def kinds_in_Nil_iff)
  qed
  then have notin: "e \<notin> fst ` set ?inner" by (simp add: kinds_in_Nil_iff)
  have one: "kinds_in e (AList.update e kind ?inner) = [kind]"
    by (simp add: kinds_in_update_same notin none)
  have zero: "(case map_of (deps ont) a of None \<Rightarrow> 0 | Some d \<Rightarrow> ?f (a, d)) = 0"
    using none by (auto simp: dependencies_of_def split: option.splits)
  from sum_list_update [of ?f a "AList.update e kind ?inner" "deps ont"]
  have "sum_list (map ?f (AList.update a (AList.update e kind ?inner) (deps ont)))
          = sum_list (map ?f (deps ont)) + 1"
    unfolding zero by (simp add: one)
  then show ?thesis
    by (simp add: add_dependency_ok assms length_dependents_of)
qed

lemma effective_priority_eq:
  "effective_priority e ont = priority e + int (length (dependents_of ont (eid e)))"
proof -
  have "sum_list (map (\<lambda>_. 1::int) xs) = int (length xs)" for xs :: "(string \<times> string) list"
    by (induction xs) auto
  then show ?thesis by (simp add: effective_priority_def dependents_def Let_def)
qed

lemma run_snoc: "run fns (cs @ [c]) = exec fns (run fns cs) c"
  by (simp add: run_def)

lemma graph_ok_Ontology: "graph_ok Ontology"
  by (simp add: graph_ok_def Ontology_def)

lemma graph_ok_entities:
  assumes "graph_ok ont" "deps ont' = deps ont"
    and "\<And>x. has_key (entities_map ont) x \<Longrightarrow> has_key (entities_map ont') x"
  shows "graph_ok ont'"
  using assms unfolding graph_ok_def list_all_iff by fastforce

lemma graph_ok_add_schema: "graph_ok ont \<Longrightarrow> graph_ok (snd (add_schema ont s))"
  by (rule graph_ok_entities [where ont = ont]) (auto simp: add_schema_def)

lemma graph_ok_spawn:
  "graph_ok ont \<Longrightarrow> graph_ok (snd (spawn fns ont entity_id tid goal_name g t0 prio))"
  by (rule graph_ok_entities [where ont = ont])
     (auto simp: spawn_def Let_def has_key_update split: sum.splits)

lemma graph_ok_regenerate:
  "graph_ok ont \<Longrightarrow> graph_ok (exec fns ont (Regenerate e))"
  by (rule graph_ok_entities [where ont = ont]) (auto simp: has_key_update split: option.splits)

lemma dependencies_of_ok:
  assumes "graph_ok ont"
  shows "distinct (map fst (dependencies_of ont a))"
    and "(b, k) \<in> set (dependencies_of ont a) \<Longrightarrow> has_key (entities_map ont) b"
    and "dependencies_of ont a \<noteq> [] \<Longrightarrow> has_key (entities_map ont) a"
proof -
  show "distinct (map fst (dependencies_of ont a))"
  proof (cases "map_of (deps ont) a")
    case None then show ?thesis by (simp add: dependencies_of_def)
  next
    case (Some d)
    then have "(a, d) \<in> set (deps ont)" by (rule map_of_SomeD)
    with assms Some show ?thesis by (auto simp: graph_ok_def list_all_iff dependencies_of_def)
  qed
  show "has_key (entities_map ont) b" if "(b, k) \<in> set (dependencies_of ont a)"
  proof (cases "map_of (deps ont) a")
    case None with that show ?thesis by (simp add: dependencies_of_def)
  next
    case (Some d)
    then have "(a, d) \<in> set (deps ont)" by (rule map_of_SomeD)
    with assms Some that show ?thesis by (auto simp: graph_ok_def list_all_iff dependencies_of_def)
  qed
  show "has_key (entities_map ont) a" if "dependencies_of ont a \<noteq> []"
  proof (cases "map_of (deps ont) a")
    case None with that show ?thesis by (simp add: dependencies_of_def)
  next
    case (Some d)
    then have "(a, d) \<in> set (deps ont)" by (rule map_of_SomeD)
    with assms show ?thesis by (auto simp: graph_ok_def list_all_iff)
  qed
qed

lemma graph_ok_add_dependency:
  assumes "graph_ok ont"
  shows "graph_ok (snd (add_dependency ont a b kind))"
proof (cases "has_key (entities_map ont) a \<and> has_key (entities_map ont) b")
  case False
  then show ?thesis using assms by (auto simp: add_dependency_fail)
next
  case True
  let ?inner = "AList.update b kind (dependencies_of ont a)"
  have d: "distinct (map fst ?inner)"
    using dependencies_of_ok(1) [OF assms] by (simp add: distinct_update)
  have k: "has_key (entities_map ont) x" if "(x, y) \<in> set ?inner" for x y
    using that set_update_subset [of b kind "dependencies_of ont a"] True
      dependencies_of_ok(2) [OF assms] by auto
  have "distinct (map fst (AList.update a ?inner (deps ont)))"
    using assms by (simp add: graph_ok_def distinct_update)
  moreover have "has_key (entities_map ont) x \<and> distinct (map fst dd) \<and>
      (\<forall>(y, z) \<in> set dd. has_key (entities_map ont) y)"
    if "(x, dd) \<in> set (AList.update a ?inner (deps ont))" for x dd
  proof -
    from that set_update_subset [of a ?inner "deps ont"]
    consider "x = a" "dd = ?inner" | "(x, dd) \<in> set (deps ont)" by auto
    then show ?thesis
    proof cases
      case 1 then show ?thesis using True d k by auto
    next
      case 2 then show ?thesis using assms by (auto simp: graph_ok_def list_all_iff)
    qed
  qed
  ultimately show ?thesis
    using True unfolding graph_ok_def list_all_iff
    by (simp add: add_dependency_ok) blast
qed

lemma graph_ok_exec: "graph_ok ont \<Longrightarrow> graph_ok (exec fns ont c)"
proof (cases c)
  case (Regenerate e)
  assume "graph_ok ont"
  then show ?thesis unfolding Regenerate by (rule graph_ok_regenerate)
qed (simp_all add: graph_ok_add_schema graph_ok_spawn graph_ok_add_dependency)

lemma graph_ok_run: "graph_ok (run fns cs)"
proof (induction cs rule: rev_induct)
  case Nil
  show ?case by (simp add: run_def graph_ok_Ontology)
next
  case (snoc c cs)
  then show ?case by (simp add: run_snoc graph_ok_exec)
qed

lemma filter_key_le1: "distinct (map fst d) \<Longrightarrow> length (filter (\<lambda>p. fst p = b) d) \<le> 1"
  by (induction d) (auto simp: image_iff filter_empty_conv)

lemma filter_key_le1': "distinct (map fst d) \<Longrightarrow> length (filter (\<lambda>(x, k). x = b) d) \<le> 1"
  using filter_key_le1 [of d b] by (simp add: case_prod_unfold)

lemma kinds_in_le1: "distinct (map fst d) \<Longrightarrow> length (kinds_in b d) \<le> 1"
  using filter_key_le1 [of d b] by (simp add: kinds_in_def)

lemma incoming_le1:
  "distinct (map fst al) \<Longrightarrow> \<forall>(x, d) \<in> set al. length (kinds_in b d) \<le> 1 \<Longrightarrow>
   length (filter (\<lambda>(x, k). x = a)
     (concat (map (\<lambda>(x, d). map (\<lambda>k. (x, k)) (kinds_in b d)) al))) \<le> 1"
proof (induction al)
  case Nil
  then show ?case by simp
next
  case (Cons p al)
  obtain x d where p: "p = (x, d)" by (cases p)
  show ?case
  proof (cases "x = a")
    case True
    with Cons.prems p have "a \<notin> fst ` set al" by auto
    then have "filter (\<lambda>(x, k). x = a)
        (concat (map (\<lambda>(x, d). map (\<lambda>k. (x, k)) (kinds_in b d)) al)) = []"
      by (auto simp: filter_empty_conv image_iff)
    moreover have "length (kinds_in b d) \<le> 1" using Cons.prems p by auto
    ultimately show ?thesis using p True by (simp add: filter_map comp_def)
  next
    case False
    have "filter (\<lambda>(x, k). x = a) (map (Pair x) (kinds_in b d)) = []"
      using False by (auto simp: filter_empty_conv)
    then show ?thesis using Cons p by simp
  qed
qed

lemma graph_ok_unique:
  assumes "graph_ok ont"
  shows "length (edge_kinds ont a b) \<le> 1"
    and "length (filter (\<lambda>(x, k). x = a) (dependents_of ont b)) \<le> 1"
proof -
  show "length (edge_kinds ont a b) \<le> 1"
    using filter_key_le1' [OF dependencies_of_ok(1) [OF assms, of a], of b]
    by (simp add: edge_kinds_def)
  have "\<forall>(x, d) \<in> set (deps ont). length (kinds_in b d) \<le> 1"
    using assms unfolding graph_ok_def list_all_iff by (fastforce intro: kinds_in_le1)
  moreover have "distinct (map fst (deps ont))" using assms by (simp add: graph_ok_def)
  ultimately show "length (filter (\<lambda>(x, k). x = a) (dependents_of ont b)) \<le> 1"
    unfolding dependents_of_alt by (rule incoming_le1 [rotated])
qed

lemma dependencies_of_add:
  assumes "has_key (entities_map ont) a" "has_key (entities_map ont) b"
  shows "dependencies_of (snd (add_dependency ont a b kind)) x =
     (if x = a then AList.update b kind (dependencies_of ont a) else dependencies_of ont x)"
  by (simp add: add_dependency_ok assms dependencies_of_def AList.update_conv')

lemma unreachable_empty:
  assumes "graph_ok ont" "\<not> has_key (entities_map ont) e"
  shows "dependencies_of ont e = []" and "dependents_of ont e = []"
proof -
  show "dependencies_of ont e = []"
    using dependencies_of_ok(3) [OF assms(1), of e] assms(2) by blast
  have no: "(a, k) \<notin> set (dependents_of ont e)" for a k
  proof
    assume "(a, k) \<in> set (dependents_of ont e)"
    then obtain d where "(a, d) \<in> set (deps ont)" "(e, k) \<in> set d"
      by (auto simp: dependents_of_mem)
    with assms(1) have "has_key (entities_map ont) e"
      by (auto simp: graph_ok_def list_all_iff)
    with assms(2) show False by simp
  qed
  show "dependents_of ont e = []"
  proof (cases "dependents_of ont e")
    case Nil
    then show ?thesis .
  next
    case (Cons p ps)
    obtain a k where "p = (a, k)" by (cases p)
    with Cons have "(a, k) \<in> set (dependents_of ont e)" by simp
    with no show ?thesis by blast
  qed
qed

text \<open>
  C4. In every ontology, \<open>effective_priority\<close> of an entity is its base priority plus
  the number of entries of \<open>dependents_of\<close> for its eid; it is a function of the ontology
  it is given and of nothing stored. When an edge to the entity is added from a depender
  that had no edge to it, the number of dependents and the effective priority both grow
  by exactly one.
\<close>

theorem effective_priority_pull:
  "effective_priority e ont = priority e + int (length (dependents_of ont (eid e))) \<and>
   (has_key (entities_map ont) a \<and> has_key (entities_map ont) (eid e) \<and>
    (\<forall>k. (a, k) \<notin> set (dependents_of ont (eid e))) \<longrightarrow>
      fst (add_dependency ont a (eid e) kind) = Inr () \<and>
      length (dependents_of (snd (add_dependency ont a (eid e) kind)) (eid e))
        = length (dependents_of ont (eid e)) + 1 \<and>
      effective_priority e (snd (add_dependency ont a (eid e) kind))
        = effective_priority e ont + 1)"
proof (intro conjI impI)
  show "effective_priority e ont = priority e + int (length (dependents_of ont (eid e)))"
    by (rule effective_priority_eq)
next
  assume h: "has_key (entities_map ont) a \<and> has_key (entities_map ont) (eid e) \<and>
    (\<forall>k. (a, k) \<notin> set (dependents_of ont (eid e)))"
  then show "fst (add_dependency ont a (eid e) kind) = Inr ()"
    by (simp add: add_dependency_ok)
  from h show n: "length (dependents_of (snd (add_dependency ont a (eid e) kind)) (eid e))
        = length (dependents_of ont (eid e)) + 1"
    by (simp add: new_depender_count)
  show "effective_priority e (snd (add_dependency ont a (eid e) kind))
        = effective_priority e ont + 1"
    unfolding effective_priority_eq n by simp
qed

lemma onto_facts:
  "has_key (entities_map onto) ''tea_entity''"
  "has_key (entities_map onto) ''whale_entity''"
  "has_key (entities_map onto) ''petunia_entity''"
  "\<not> has_key (entities_map onto) ''vogon_entity''"
  "dependents_of onto ''tea_entity'' = [(''whale_entity'', ''supports'')]"
  "dependents_of onto ''petunia_entity'' = []"
  "dependencies_of onto ''whale_entity'' = [(''tea_entity'', ''supports'')]"
  by (simp_all add: onto_eq has_key_def dependents_of_def dependencies_of_def)

theorem effective_priority_pull_witness:
  "has_key (entities_map onto) ''petunia_entity'' \<and>
   has_key (entities_map onto) (eid tea_entity) \<and>
   dependents_of onto (eid tea_entity) = [(''whale_entity'', ''supports'')] \<and>
   effective_priority tea_entity onto = 1 \<and>
   effective_priority tea_entity
     (snd (add_dependency onto ''petunia_entity'' (eid tea_entity) ''supports'')) = 2"
proof -
  have i: "eid tea_entity = ''tea_entity''" and p: "priority tea_entity = 0"
    by (simp_all add: tea_entity_def)
  have h: "has_key (entities_map onto) ''petunia_entity'' \<and>
      has_key (entities_map onto) (eid tea_entity) \<and>
      (\<forall>k. (''petunia_entity'', k) \<notin> set (dependents_of onto (eid tea_entity)))"
    by (simp add: i onto_facts)
  note t = effective_priority_pull [of tea_entity onto "''petunia_entity''" "''supports''"]
  from t have 1: "effective_priority tea_entity onto = 1"
    by (simp add: i p onto_facts)
  from t h have "effective_priority tea_entity
     (snd (add_dependency onto ''petunia_entity'' (eid tea_entity) ''supports''))
       = effective_priority tea_entity onto + 1" by blast
  with 1 have 2: "effective_priority tea_entity
     (snd (add_dependency onto ''petunia_entity'' (eid tea_entity) ''supports'')) = 2"
    by simp
  from h 1 2 show ?thesis by (simp add: i onto_facts)
qed

text \<open>
  C10, as stated, fails. \<open>tea_entity\<close> of the quickstart example is registered and has
  base priority \<open>0\<close>, and \<open>whale_entity\<close> already depends on it. After
  \<open>add_dependency(tea_entity, tea_entity)\<close> its dependents are \<open>whale_entity\<close> and itself,
  and its effective priority is \<open>2\<close>, not its base priority plus one.
\<close>

theorem self_dependency_not_plus_one:
  "has_key (entities_map onto) ''tea_entity'' \<and>
   eid tea_entity = ''tea_entity'' \<and>
   priority tea_entity = 0 \<and>
   add_dependency onto ''tea_entity'' ''tea_entity'' ''supports'' =
     (Inr (), onto\<lparr>deps := [(''whale_entity'', [(''tea_entity'', ''supports'')]),
        (''petunia_entity'', [(''whale_entity'', ''supports'')]),
        (''tea_entity'', [(''tea_entity'', ''supports'')])]\<rparr>) \<and>
   dependents_of (snd (add_dependency onto ''tea_entity'' ''tea_entity'' ''supports''))
     ''tea_entity'' = [(''whale_entity'', ''supports''), (''tea_entity'', ''supports'')] \<and>
   effective_priority tea_entity
     (snd (add_dependency onto ''tea_entity'' ''tea_entity'' ''supports'')) = 2 \<and>
   effective_priority tea_entity
     (snd (add_dependency onto ''tea_entity'' ''tea_entity'' ''supports''))
       \<noteq> priority tea_entity + 1"
proof -
  have a: "add_dependency onto ''tea_entity'' ''tea_entity'' ''supports'' =
     (Inr (), onto\<lparr>deps := [(''whale_entity'', [(''tea_entity'', ''supports'')]),
        (''petunia_entity'', [(''whale_entity'', ''supports'')]),
        (''tea_entity'', [(''tea_entity'', ''supports'')])]\<rparr>)"
    by (simp add: add_dependency_def onto_eq has_key_def)
  have i: "eid tea_entity = ''tea_entity''" and p: "priority tea_entity = 0"
    by (simp_all add: tea_entity_def)
  have d: "dependents_of (snd (add_dependency onto ''tea_entity'' ''tea_entity'' ''supports''))
     ''tea_entity'' = [(''whale_entity'', ''supports''), (''tea_entity'', ''supports'')]"
    unfolding a by (simp add: dependents_of_def)
  have e: "effective_priority tea_entity
     (snd (add_dependency onto ''tea_entity'' ''tea_entity'' ''supports'')) = 2"
    by (simp add: effective_priority_eq i p d)
  from a i p d e onto_facts(1) show ?thesis by simp
qed

text \<open>
  C10, amended. For a registered entity \<open>e\<close>, \<open>add_dependency(e, e, kind)\<close> succeeds and
  \<open>(e, kind)\<close> is then among \<open>dependents_of(e)\<close>, which \<open>effective_priority\<close> counts: the
  effective priority of \<open>e\<close> is its base priority plus the number of its dependents, \<open>e\<close>
  itself included. When \<open>e\<close> had no edge to itself before the call, the call raises its
  effective priority by exactly one. When \<open>e\<close> had no dependents at all before the call,
  \<open>e\<close> is afterwards its only dependent and its effective priority is its base priority
  plus one.
\<close>

theorem self_dependency:
  "has_key (entities_map ont) e \<longrightarrow>
     fst (add_dependency ont e e kind) = Inr () \<and>
     (e, kind) \<in> set (dependents_of (snd (add_dependency ont e e kind)) e) \<and>
     (\<forall>ent. eid ent = e \<longrightarrow>
        effective_priority ent (snd (add_dependency ont e e kind)) =
          priority ent + int (length (dependents_of (snd (add_dependency ont e e kind)) e))) \<and>
     (\<forall>ent. eid ent = e \<and> (\<forall>k. (e, k) \<notin> set (dependents_of ont e)) \<longrightarrow>
        effective_priority ent (snd (add_dependency ont e e kind)) =
          effective_priority ent ont + 1) \<and>
     (\<forall>ent. eid ent = e \<and> dependents_of ont e = [] \<longrightarrow>
        dependents_of (snd (add_dependency ont e e kind)) e = [(e, kind)] \<and>
        effective_priority ent (snd (add_dependency ont e e kind)) = priority ent + 1)"
proof (intro impI)
  assume k: "has_key (entities_map ont) e"
  let ?ont' = "snd (add_dependency ont e e kind)"
  have ok: "fst (add_dependency ont e e kind) = Inr ()"
    using k by (simp add: add_dependency_ok)
  have m: "(e, kind) \<in> set (dependents_of ?ont' e)"
    unfolding dependents_of_mem using k
    by (auto simp: add_dependency_ok intro: update_mem)
  have p: "effective_priority ent ?ont' = priority ent + int (length (dependents_of ?ont' e))"
    if "eid ent = e" for ent
    using that by (simp add: effective_priority_eq)
  have n: "length (dependents_of ?ont' e) = length (dependents_of ont e) + 1"
    if "\<forall>k. (e, k) \<notin> set (dependents_of ont e)"
    using k that by (intro new_depender_count) simp_all
  have q: "effective_priority ent ?ont' = effective_priority ent ont + 1"
    if "eid ent = e" "\<forall>k. (e, k) \<notin> set (dependents_of ont e)" for ent
    using that n by (simp add: effective_priority_eq)
  have s: "dependents_of ?ont' e = [(e, kind)]" if "dependents_of ont e = []"
  proof -
    from that have "length (dependents_of ?ont' e) = length (dependents_of ont e) + 1"
      by (intro n) simp
    with that have "length (dependents_of ?ont' e) = 1" by simp
    then obtain x where x: "dependents_of ?ont' e = [x]"
      by (cases "dependents_of ?ont' e") auto
    with m show ?thesis by simp
  qed
  have t: "effective_priority ent ?ont' = priority ent + 1"
    if "eid ent = e" "dependents_of ont e = []" for ent
    using p [OF that(1)] s [OF that(2)] by simp
  from ok m p q s t show "fst (add_dependency ont e e kind) = Inr () \<and>
     (e, kind) \<in> set (dependents_of ?ont' e) \<and>
     (\<forall>ent. eid ent = e \<longrightarrow>
        effective_priority ent ?ont' = priority ent + int (length (dependents_of ?ont' e))) \<and>
     (\<forall>ent. eid ent = e \<and> (\<forall>k. (e, k) \<notin> set (dependents_of ont e)) \<longrightarrow>
        effective_priority ent ?ont' = effective_priority ent ont + 1) \<and>
     (\<forall>ent. eid ent = e \<and> dependents_of ont e = [] \<longrightarrow>
        dependents_of ?ont' e = [(e, kind)] \<and>
        effective_priority ent ?ont' = priority ent + 1)"
    by blast
qed

theorem self_dependency_witness:
  "has_key (entities_map onto) ''petunia_entity'' \<and>
   eid petunia_entity = ''petunia_entity'' \<and>
   dependents_of onto ''petunia_entity'' = [] \<and>
   add_dependency onto ''petunia_entity'' ''petunia_entity'' ''supports'' =
     (Inr (), onto\<lparr>deps := [(''whale_entity'', [(''tea_entity'', ''supports'')]),
        (''petunia_entity'', [(''whale_entity'', ''supports''),
                              (''petunia_entity'', ''supports'')])]\<rparr>) \<and>
   dependents_of (snd (add_dependency onto ''petunia_entity'' ''petunia_entity'' ''supports''))
     ''petunia_entity'' = [(''petunia_entity'', ''supports'')] \<and>
   effective_priority petunia_entity
     (snd (add_dependency onto ''petunia_entity'' ''petunia_entity'' ''supports''))
       = priority petunia_entity + 1"
proof -
  have i: "eid petunia_entity = ''petunia_entity''" by (simp add: petunia_entity_def)
  have a: "add_dependency onto ''petunia_entity'' ''petunia_entity'' ''supports'' =
     (Inr (), onto\<lparr>deps := [(''whale_entity'', [(''tea_entity'', ''supports'')]),
        (''petunia_entity'', [(''whale_entity'', ''supports''),
                              (''petunia_entity'', ''supports'')])]\<rparr>)"
    by (simp add: add_dependency_def onto_eq has_key_def)
  from self_dependency [of onto "''petunia_entity''" "''supports''"] onto_facts(3,6) i
  have "dependents_of (snd (add_dependency onto ''petunia_entity'' ''petunia_entity'' ''supports''))
     ''petunia_entity'' = [(''petunia_entity'', ''supports'')] \<and>
   effective_priority petunia_entity
     (snd (add_dependency onto ''petunia_entity'' ''petunia_entity'' ''supports''))
       = priority petunia_entity + 1"
    by blast
  with onto_facts(3,6) i a show ?thesis by blast
qed

lemma dependencies_of_set:
  "(b, k) \<in> set (dependencies_of ont e) \<longleftrightarrow>
     (\<exists>d. map_of (deps ont) e = Some d \<and> (b, k) \<in> set d)"
  by (cases "map_of (deps ont) e") (simp_all add: dependencies_of_def)

text \<open>
  C5. \<open>add_dependency\<close> raises \<open>KeyError\<close> (NotFound) and leaves the ontology as it
  was when the depender or the dependee is not registered. When both are, it returns
  normally, the pair then maps to the given kind, every other pair maps to what it mapped
  to before, and the schemas and entities are untouched. After any sequence of calls, a
  pair has at most one kind, in \<open>dependencies_of\<close> and in \<open>dependents_of\<close>; after one
  more successful \<open>add_dependency\<close> the pair has exactly the new kind.
\<close>

theorem add_dependency_edge:
  "(\<not> has_key (entities_map ont) depender \<or> \<not> has_key (entities_map ont) dependee \<longrightarrow>
      add_dependency ont depender dependee kind =
        (Inl (KeyError ''Both entities must exist before linking''), ont)) \<and>
   (has_key (entities_map ont) depender \<and> has_key (entities_map ont) dependee \<longrightarrow>
      fst (add_dependency ont depender dependee kind) = Inr () \<and>
      map_of (dependencies_of (snd (add_dependency ont depender dependee kind)) depender) dependee
        = Some kind \<and>
      (\<forall>a b. (a, b) \<noteq> (depender, dependee) \<longrightarrow>
         map_of (dependencies_of (snd (add_dependency ont depender dependee kind)) a) b
           = map_of (dependencies_of ont a) b) \<and>
      schemas (snd (add_dependency ont depender dependee kind)) = schemas ont \<and>
      entities_map (snd (add_dependency ont depender dependee kind)) = entities_map ont) \<and>
   (\<forall>a b. length (edge_kinds (run fns cs) a b) \<le> 1 \<and>
      length (filter (\<lambda>(x, k). x = a) (dependents_of (run fns cs) b)) \<le> 1) \<and>
   (has_key (entities_map (run fns cs)) depender \<and>
    has_key (entities_map (run fns cs)) dependee \<longrightarrow>
      edge_kinds (snd (add_dependency (run fns cs) depender dependee kind)) depender dependee
        = [kind])"
proof (intro conjI impI allI)
  assume "\<not> has_key (entities_map ont) depender \<or> \<not> has_key (entities_map ont) dependee"
  then show "add_dependency ont depender dependee kind =
        (Inl (KeyError ''Both entities must exist before linking''), ont)"
    by (rule add_dependency_fail)
next
  assume h: "has_key (entities_map ont) depender \<and> has_key (entities_map ont) dependee"
  then show "fst (add_dependency ont depender dependee kind) = Inr ()"
    "schemas (snd (add_dependency ont depender dependee kind)) = schemas ont"
    "entities_map (snd (add_dependency ont depender dependee kind)) = entities_map ont"
    by (simp_all add: add_dependency_ok)
  from h show "map_of (dependencies_of (snd (add_dependency ont depender dependee kind)) depender)
      dependee = Some kind"
    by (simp add: dependencies_of_add AList.update_conv')
  fix a b
  assume "(a, b) \<noteq> (depender, dependee)"
  with h show "map_of (dependencies_of (snd (add_dependency ont depender dependee kind)) a) b
           = map_of (dependencies_of ont a) b"
    by (auto simp: dependencies_of_add AList.update_conv')
next
  fix a b
  show "length (edge_kinds (run fns cs) a b) \<le> 1"
    "length (filter (\<lambda>(x, k). x = a) (dependents_of (run fns cs) b)) \<le> 1"
    by (rule graph_ok_unique [OF graph_ok_run])+
next
  assume h: "has_key (entities_map (run fns cs)) depender \<and>
    has_key (entities_map (run fns cs)) dependee"
  let ?ont' = "snd (add_dependency (run fns cs) depender dependee kind)"
  have "?ont' = run fns (cs @ [AddDependency depender dependee kind])"
    by (simp add: run_snoc)
  then have "graph_ok ?ont'" by (simp only: graph_ok_run)
  then have l: "length (edge_kinds ?ont' depender dependee) \<le> 1"
    by (rule graph_ok_unique)
  from h have "map_of (dependencies_of ?ont' depender) dependee = Some kind"
    by (simp add: dependencies_of_add AList.update_conv')
  then have "(dependee, kind) \<in> set (dependencies_of ?ont' depender)"
    by (rule map_of_SomeD)
  then have "kind \<in> set (edge_kinds ?ont' depender dependee)"
    by (force simp: edge_kinds_def)
  with l show "edge_kinds ?ont' depender dependee = [kind]"
    by (cases "edge_kinds ?ont' depender dependee") auto
qed

theorem add_dependency_edge_witness:
  "\<not> has_key (entities_map onto) ''vogon_entity'' \<and>
   add_dependency onto ''vogon_entity'' ''tea_entity'' ''supports'' =
     (Inl (KeyError ''Both entities must exist before linking''), onto) \<and>
   has_key (entities_map onto) ''whale_entity'' \<and> has_key (entities_map onto) ''tea_entity'' \<and>
   dependencies_of onto ''whale_entity'' = [(''tea_entity'', ''supports'')] \<and>
   add_dependency onto ''whale_entity'' ''tea_entity'' ''blocks'' =
     (Inr (), onto\<lparr>deps := [(''whale_entity'', [(''tea_entity'', ''blocks'')]),
        (''petunia_entity'', [(''whale_entity'', ''supports'')])]\<rparr>) \<and>
   edge_kinds (snd (add_dependency onto ''whale_entity'' ''tea_entity'' ''blocks''))
     ''whale_entity'' ''tea_entity'' = [''blocks'']"
proof -
  have r: "run quickstart_fns quickstart_calls = onto" by (simp add: onto_def)
  note t = add_dependency_edge [of onto "''vogon_entity''" "''tea_entity''" "''supports''"
      quickstart_fns quickstart_calls]
  note u = add_dependency_edge [of onto "''whale_entity''" "''tea_entity''" "''blocks''"
      quickstart_fns quickstart_calls, unfolded r]
  have 1: "add_dependency onto ''vogon_entity'' ''tea_entity'' ''supports'' =
     (Inl (KeyError ''Both entities must exist before linking''), onto)"
    using t onto_facts(4) by blast
  have 2: "edge_kinds (snd (add_dependency onto ''whale_entity'' ''tea_entity'' ''blocks''))
     ''whale_entity'' ''tea_entity'' = [''blocks'']"
    using u onto_facts(1,2) by blast
  have 3: "add_dependency onto ''whale_entity'' ''tea_entity'' ''blocks'' =
     (Inr (), onto\<lparr>deps := [(''whale_entity'', [(''tea_entity'', ''blocks'')]),
        (''petunia_entity'', [(''whale_entity'', ''supports'')])]\<rparr>)"
    by (simp add: add_dependency_def onto_eq has_key_def)
  from 1 2 3 onto_facts show ?thesis by blast
qed

text \<open>
  C9. \<open>dependencies_of\<close> and \<open>dependents_of\<close> have no failing branch: for every
  ontology and every string they return the list of the outgoing, respectively incoming,
  edges as \<open>(other eid, kind)\<close> pairs. The list is empty when there is no such edge, and
  both are empty for an identifier that was never spawned, whatever calls were made.
\<close>

theorem dependency_queries:
  "set (dependencies_of ont e) = {(b, k). \<exists>d. map_of (deps ont) e = Some d \<and> (b, k) \<in> set d} \<and>
   set (dependents_of ont e) = {(a, k). \<exists>d. (a, d) \<in> set (deps ont) \<and> (e, k) \<in> set d} \<and>
   ((\<forall>d. map_of (deps ont) e = Some d \<longrightarrow> d = []) \<longrightarrow> dependencies_of ont e = []) \<and>
   ((\<forall>a d k. (a, d) \<in> set (deps ont) \<longrightarrow> (e, k) \<notin> set d) \<longrightarrow> dependents_of ont e = []) \<and>
   (\<not> has_key (entities_map (run fns cs)) e \<longrightarrow>
      dependencies_of (run fns cs) e = [] \<and> dependents_of (run fns cs) e = [])"
proof (intro conjI impI)
  show "set (dependencies_of ont e) =
      {(b, k). \<exists>d. map_of (deps ont) e = Some d \<and> (b, k) \<in> set d}"
    using dependencies_of_set [of _ _ ont e] by auto
  show "set (dependents_of ont e) = {(a, k). \<exists>d. (a, d) \<in> set (deps ont) \<and> (e, k) \<in> set d}"
    using dependents_of_mem [of _ _ ont e] by auto
next
  assume "\<forall>d. map_of (deps ont) e = Some d \<longrightarrow> d = []"
  then show "dependencies_of ont e = []"
    by (auto simp: dependencies_of_def split: option.splits)
next
  assume a: "\<forall>a d k. (a, d) \<in> set (deps ont) \<longrightarrow> (e, k) \<notin> set d"
  show "dependents_of ont e = []"
  proof (cases "dependents_of ont e")
    case Nil
    then show ?thesis .
  next
    case (Cons p ps)
    obtain x k where "p = (x, k)" by (cases p)
    with Cons have "(x, k) \<in> set (dependents_of ont e)" by simp
    with a show ?thesis by (auto simp: dependents_of_mem)
  qed
next
  assume n: "\<not> has_key (entities_map (run fns cs)) e"
  show "dependencies_of (run fns cs) e = []" "dependents_of (run fns cs) e = []"
    by (rule unreachable_empty [OF graph_ok_run n])+
qed

theorem dependency_queries_witness:
  "\<not> has_key (entities_map onto) ''vogon_entity'' \<and>
   dependencies_of onto ''vogon_entity'' = [] \<and> dependents_of onto ''vogon_entity'' = [] \<and>
   map_of (deps onto) ''tea_entity'' = None \<and> dependencies_of onto ''tea_entity'' = [] \<and>
   dependents_of onto ''petunia_entity'' = [] \<and>
   dependents_of onto ''tea_entity'' = [(''whale_entity'', ''supports'')]"
proof -
  have r: "run quickstart_fns quickstart_calls = onto" by (simp add: onto_def)
  have m: "map_of (deps onto) ''tea_entity'' = None" by (simp add: onto_eq)
  note v = dependency_queries [of onto "''vogon_entity''" quickstart_fns quickstart_calls,
      unfolded r]
  note t = dependency_queries [of onto "''tea_entity''" quickstart_fns quickstart_calls]
  note p = dependency_queries [of onto "''petunia_entity''" quickstart_fns quickstart_calls]
  have 1: "dependencies_of onto ''vogon_entity'' = [] \<and> dependents_of onto ''vogon_entity'' = []"
    using v onto_facts(4) by blast
  have 2: "dependencies_of onto ''tea_entity'' = []"
    using t m by simp
  have "\<forall>a d k. (a, d) \<in> set (deps onto) \<longrightarrow> (''petunia_entity'', k) \<notin> set d"
    by (auto simp: onto_eq)
  with p have 3: "dependents_of onto ''petunia_entity'' = []" by blast
  from 1 2 3 m onto_facts show ?thesis by blast
qed

section \<open>The schedule of the Navigator\<close>

lemma pick_mem: "pick score ont es = Some e \<Longrightarrow> e \<in> set es"
  by (induction es arbitrary: e) (auto split: option.splits if_splits)

lemma pick_None: "pick score ont es = None \<longleftrightarrow> es = []"
  by (cases es) (auto split: option.splits)

lemma eligible_iff:
  "eligible ont done e \<longleftrightarrow> (\<forall>(d, k) \<in> set (dependencies e ont). d \<in> eid ` set done)"
  by (simp add: eligible_def list_all_iff)

lemma dependees_first_Nil: "dependees_first ont []"
  by (simp add: dependees_first_def)

lemma dependees_first_iff:
  "dependees_first ont es \<longleftrightarrow> (\<forall>i < length es. eligible ont (take i es) (es ! i))"
  by (auto simp: dependees_first_def list_all_iff)

lemma dependees_first_snoc:
  assumes "dependees_first ont done" "eligible ont done e"
  shows "dependees_first ont (done @ [e])"
  unfolding dependees_first_iff
proof (intro allI impI)
  fix i assume "i < length (done @ [e])"
  then consider "i < length done" | "i = length done" by fastforce
  then show "eligible ont (take i (done @ [e])) ((done @ [e]) ! i)"
  proof cases
    case 1
    with assms(1) show ?thesis by (simp add: dependees_first_iff nth_append)
  next
    case 2
    with assms(2) show ?thesis by simp
  qed
qed

lemma topological_order_Inr:
  "topological_order score ont remaining done = Inr order \<Longrightarrow> dependees_first ont done \<Longrightarrow>
   dependees_first ont order \<and> mset order = mset done + mset remaining"
proof (induction score ont remaining "done" rule: topological_order.induct)
  case (1 score ont remaining don)
  show ?case
  proof (cases "remaining = []")
    case True
    with "1.prems" show ?thesis by (simp add: topological_order.simps)
  next
    case False
    with "1.prems"(1) obtain e where
      p: "pick score ont (filter (eligible ont don) remaining) = Some e" and
      r: "topological_order score ont (remove1 e remaining) (don @ [e]) = Inr order"
      by (subst (asm) topological_order.simps) (auto split: option.splits)
    from p have m: "e \<in> set remaining" and el: "eligible ont don e"
      by (auto dest: pick_mem)
    from "1.prems"(2) el have "dependees_first ont (don @ [e])" by (rule dependees_first_snoc)
    with "1.IH" [OF False p r] have
      "dependees_first ont order" "mset order = mset (don @ [e]) + mset (remove1 e remaining)"
      by auto
    with m show ?thesis by simp
  qed
qed

lemma entities_ok_key:
  assumes "entities_ok ont" "has_key (entities_map ont) a"
  shows "a \<in> eid ` set (entities ont)"
proof -
  from assms(2) obtain e where m: "map_of (entities_map ont) a = Some e"
    by (auto simp: has_key_def)
  then have i: "(a, e) \<in> set (entities_map ont)" by (rule map_of_SomeD)
  with assms(1) have "eid e = a" by (auto simp: entities_ok_def list_all_iff)
  moreover from i have "e \<in> set (entities ont)" by (force simp: entities_def)
  ultimately show ?thesis by blast
qed

lemma dep_rel_iff: "(a, b) \<in> dep_rel ont \<longleftrightarrow> (\<exists>k. (b, k) \<in> set (dependencies_of ont a))"
  by (force simp: dep_rel_def has_key_iff image_iff)

lemma dep_rel_keys:
  assumes "graph_ok ont" "(a, b) \<in> dep_rel ont"
  shows "has_key (entities_map ont) a" "has_key (entities_map ont) b"
proof -
  from assms(2) obtain k where k: "(b, k) \<in> set (dependencies_of ont a)"
    by (auto simp: dep_rel_iff)
  then have "dependencies_of ont a \<noteq> []" by auto
  then show "has_key (entities_map ont) a" by (rule dependencies_of_ok(3) [OF assms(1)])
  from k show "has_key (entities_map ont) b" by (rule dependencies_of_ok(2) [OF assms(1)])
qed

lemma finite_dep_rel: "finite (dep_rel ont)"
proof -
  have "dep_rel ont \<subseteq> fst ` set (deps ont) \<times> (\<Union>p \<in> set (deps ont). fst ` set (snd p))"
  proof
    fix x assume x: "x \<in> dep_rel ont"
    obtain a b where ab: "x = (a, b)" by (cases x)
    with x obtain k where "(b, k) \<in> set (dependencies_of ont a)" by (auto simp: dep_rel_iff)
    then obtain d where "map_of (deps ont) a = Some d" "(b, k) \<in> set d"
      by (auto simp: dependencies_of_set)
    then have "(a, d) \<in> set (deps ont)" "b \<in> fst ` set d"
      by (auto dest: map_of_SomeD simp: image_iff) force
    then show "x \<in> fst ` set (deps ont) \<times> (\<Union>p \<in> set (deps ont). fst ` set (snd p))"
      unfolding ab by force
  qed
  then show ?thesis by (rule finite_subset) auto
qed

lemma takeWhile_rank:
  assumes "i < length es" "eid (es ! i) = a"
  shows "length (takeWhile (\<lambda>e. eid e \<noteq> a) es) \<le> i"
proof (rule ccontr)
  assume "\<not> length (takeWhile (\<lambda>e. eid e \<noteq> a) es) \<le> i"
  then have "i < length (takeWhile (\<lambda>e. eid e \<noteq> a) es)" by simp
  then have "eid (es ! i) \<noteq> a"
    using nth_mem [of i "takeWhile (\<lambda>e. eid e \<noteq> a) es"] set_takeWhileD
    by (metis takeWhile_nth)
  with assms show False by simp
qed

lemma dependees_first_acyclic:
  assumes df: "dependees_first ont es"
    and cover: "\<And>a b. (a, b) \<in> dep_rel ont \<Longrightarrow> a \<in> eid ` set es"
  shows "acyclic (dep_rel ont)"
proof (rule acyclicI_order [where f = "\<lambda>x. length (takeWhile (\<lambda>e. eid e \<noteq> x) es)"])
  fix a b assume ab: "(a, b) \<in> dep_rel ont"
  let ?i = "length (takeWhile (\<lambda>e. eid e \<noteq> a) es)"
  from cover [OF ab] have "\<exists>e \<in> set es. \<not> eid e \<noteq> a" by auto
  then have "takeWhile (\<lambda>e. eid e \<noteq> a) es \<noteq> es"
    by (simp add: takeWhile_eq_all_conv)
  then have "?i \<noteq> length es"
    using takeWhile_eq_take [of "\<lambda>e. eid e \<noteq> a" es] by auto
  with length_takeWhile_le [of "\<lambda>e. eid e \<noteq> a" es] have i: "?i < length es"
    by simp
  then have e: "eid (es ! ?i) = a" using nth_length_takeWhile [of "\<lambda>e. eid e \<noteq> a" es] by auto
  from df i have "eligible ont (take ?i es) (es ! ?i)" by (simp add: dependees_first_iff)
  moreover from ab obtain k where "(b, k) \<in> set (dependencies (es ! ?i) ont)"
    by (auto simp: dep_rel_iff dependencies_def e)
  ultimately have "b \<in> eid ` set (take ?i es)" by (auto simp: eligible_iff)
  then obtain j where j: "j < ?i" "eid (es ! j) = b"
    using i by (auto simp: in_set_conv_nth)
  with i have "length (takeWhile (\<lambda>e. eid e \<noteq> b) es) \<le> j"
    by (intro takeWhile_rank) auto
  with j show "length (takeWhile (\<lambda>e. eid e \<noteq> b) es) < ?i" by simp
qed

lemma regenerate_eid: "eid (snd (regenerate fns e)) = eid e"
  by (simp add: regenerate_def split: sum.splits)

lemma entities_ok_update:
  assumes "entities_ok ont" "eid v = k"
  shows "entities_ok (ont\<lparr>entities_map := AList.update k v (entities_map ont)\<rparr>)"
  using assms set_update_subset [of k v "entities_map ont"]
  unfolding entities_ok_def list_all_iff by auto

lemma entities_ok_exec: "entities_ok ont \<Longrightarrow> entities_ok (exec fns ont c)"
proof (cases c)
  case (AddSchema s)
  assume "entities_ok ont"
  then show ?thesis by (simp add: AddSchema add_schema_def entities_ok_def)
next
  case (Spawn entity_id tid goal_name g t0 prio)
  assume o: "entities_ok ont"
  show ?thesis
  proof (cases "fst (spawn fns ont entity_id tid goal_name g t0 prio)")
    case (Inl e)
    then have "snd (spawn fns ont entity_id tid goal_name g t0 prio) = ont"
      by (auto simp: spawn_def schema_lookup_def Let_def
          split: if_splits option.splits sum.splits)
    with o show ?thesis by (simp add: Spawn)
  next
    case (Inr ent)
    then have "spawn fns ont entity_id tid goal_name g t0 prio =
      (Inr ent, snd (spawn fns ont entity_id tid goal_name g t0 prio))"
      by (metis prod.collapse)
    then have "eid ent = entity_id \<and> snd (spawn fns ont entity_id tid goal_name g t0 prio) =
        ont\<lparr>entities_map := AList.update entity_id ent (entities_map ont)\<rparr>"
      unfolding spawn_Inr_iff by (auto simp: seeded_simps)
    with o show ?thesis by (simp add: Spawn entities_ok_update)
  qed
next
  case (AddDependency a b k)
  assume "entities_ok ont"
  then show ?thesis by (simp add: AddDependency add_dependency_def entities_ok_def Let_def)
next
  case (Regenerate e)
  assume o: "entities_ok ont"
  show ?thesis
  proof (cases "map_of (entities_map ont) e")
    case None
    with o show ?thesis by (simp add: Regenerate)
  next
    case (Some ent)
    then have "(e, ent) \<in> set (entities_map ont)" by (rule map_of_SomeD)
    with o have "eid ent = e" by (auto simp: entities_ok_def list_all_iff)
    then have "eid (snd (regenerate fns ent)) = e" by (simp add: regenerate_eid)
    with o show ?thesis by (simp add: Regenerate Some entities_ok_update)
  qed
qed

lemma entities_ok_run: "entities_ok (run fns cs)"
proof (induction cs rule: rev_induct)
  case Nil
  show ?case by (simp add: run_def entities_ok_def Ontology_def)
next
  case (snoc c cs)
  then show ?case by (simp add: run_snoc entities_ok_exec)
qed

lemma topological_order_acyclic:
  "acyclic (dep_rel ont) \<Longrightarrow> graph_ok ont \<Longrightarrow>
   (\<And>x. has_key (entities_map ont) x \<Longrightarrow> x \<in> eid ` (set done \<union> set remaining)) \<Longrightarrow>
     \<exists>order. topological_order score ont remaining done = Inr order"
proof (induction score ont remaining "done" rule: topological_order.induct)
  case (1 score ont remaining don)
  note ac = "1.prems"(1) and g = "1.prems"(2) and cover = "1.prems"(3)
  show ?case
  proof (cases "remaining = []")
    case True
    then show ?thesis by (simp add: topological_order.simps)
  next
    case False
    have "wf ((dep_rel ont)\<inverse>)"
      using finite_dep_rel ac by (rule finite_acyclic_wf_converse)
    moreover from False obtain x where "x \<in> eid ` set remaining"
      by (cases remaining) auto
    ultimately obtain z where z: "z \<in> eid ` set remaining"
      and min: "\<And>y. (y, z) \<in> (dep_rel ont)\<inverse> \<Longrightarrow> y \<notin> eid ` set remaining"
      by (rule wfE_min) blast
    from z obtain e where e: "e \<in> set remaining" "eid e = z" by auto
    have "eligible ont don e"
      unfolding eligible_iff
    proof (clarify)
      fix d k assume "(d, k) \<in> set (dependencies e ont)"
      then have r: "(z, d) \<in> dep_rel ont" by (auto simp: dep_rel_iff dependencies_def e)
      then have "d \<notin> eid ` set remaining" using min by blast
      moreover from r have "has_key (entities_map ont) d"
        by (rule dep_rel_keys(2) [OF g])
      then have "d \<in> eid ` (set don \<union> set remaining)" by (rule cover)
      ultimately show "d \<in> eid ` set don" by blast
    qed
    with e have "filter (eligible ont don) remaining \<noteq> []"
      by (auto simp: filter_empty_conv)
    then obtain p where p: "pick score ont (filter (eligible ont don) remaining) = Some p"
      using pick_None [of score ont "filter (eligible ont don) remaining"] by auto
    then have pm: "p \<in> set remaining" by (auto dest: pick_mem)
    have "x \<in> eid ` (set (don @ [p]) \<union> set (remove1 p remaining))"
      if "has_key (entities_map ont) x" for x
    proof -
      from cover [OF that] obtain y where y: "y \<in> set don \<union> set remaining" "x = eid y" by blast
      have "u \<in> insert p (set (remove1 p remaining))" if "u \<in> set remaining" for u
        using that by (cases "u = p") simp_all
      with y show ?thesis by auto
    qed
    from "1.IH" [OF False p ac g this]
    obtain order where "topological_order score ont (remove1 p remaining) (don @ [p]) = Inr order"
      by blast
    with False p show ?thesis by (subst topological_order.simps) simp
  qed
qed

lemma offset_zero: "map (offset 0) evs = evs"
  by (induction evs) (simp_all add: offset_def)

lemma contribution_events:
  "\<exists>g\<ge>0. snd (contribution ont contributed e) = map (offset g) (timeline e)"
proof (cases "latest_end (dependee_events ont contributed e)")
  case None
  then have "snd (contribution ont contributed e) = map (offset 0) (timeline e)"
    by (simp add: contribution_def offset_zero)
  then show ?thesis by blast
next
  case (Some resume)
  show ?thesis
  proof (cases "earliest_start (timeline e)")
    case None
    with Some have "snd (contribution ont contributed e) = map (offset 0) (timeline e)"
      by (simp add: contribution_def offset_zero)
    then show ?thesis by blast
  next
    case (Some start)
    show ?thesis
    proof (cases "start < resume")
      case True
      with Some \<open>latest_end _ = Some resume\<close>
      have "snd (contribution ont contributed e) = map (offset (resume - start)) (timeline e)"
        by (simp add: contribution_def)
      moreover from True have "0 \<le> resume - start" by simp
      ultimately show ?thesis by blast
    next
      case False
      with Some \<open>latest_end _ = Some resume\<close>
      have "snd (contribution ont contributed e) = map (offset 0) (timeline e)"
        by (simp add: contribution_def offset_zero)
      then show ?thesis by blast
    qed
  qed
qed

lemma merge_mono: "set combined \<subseteq> set (merge ont es contributed combined)"
proof (induction es arbitrary: contributed combined)
  case Nil
  show ?case by simp
next
  case (Cons e es)
  obtain slack evs where c: "contribution ont contributed e = (slack, evs)"
    by (cases "contribution ont contributed e")
  have "set combined \<subseteq> set (combined @ slack @ evs)" by auto
  also have "\<dots> \<subseteq> set (merge ont es (AList.update (eid e) evs contributed) (combined @ slack @ evs))"
    by (rule Cons.IH)
  finally show ?case by (simp add: c)
qed

lemma merge_complete:
  "e \<in> set es \<Longrightarrow> ev \<in> set (timeline e) \<Longrightarrow>
   \<exists>g\<ge>0. offset g ev \<in> set (merge ont es contributed combined)"
proof (induction es arbitrary: contributed combined)
  case Nil
  then show ?case by simp
next
  case (Cons x es)
  obtain slack evs where c: "contribution ont contributed x = (slack, evs)"
    by (cases "contribution ont contributed x")
  let ?rest = "merge ont es (AList.update (eid x) evs contributed) (combined @ slack @ evs)"
  show ?case
  proof (cases "e = x")
    case True
    from contribution_events [of ont contributed x] c obtain g where
      g: "0 \<le> g" "evs = map (offset g) (timeline x)" by auto
    with Cons.prems(2) True have "offset g ev \<in> set (combined @ slack @ evs)" by auto
    with merge_mono [of "combined @ slack @ evs" ont es "AList.update (eid x) evs contributed"]
    have "offset g ev \<in> set ?rest" by blast
    with g(1) show ?thesis by (auto simp: c)
  next
    case False
    with Cons.prems have "e \<in> set es" by simp
    from Cons.IH [OF this Cons.prems(2)] show ?thesis by (simp add: c)
  qed
qed

lemma add_twice_cycle:
  assumes "has_key (entities_map ont) a" "has_key (entities_map ont) b"
  shows "\<not> acyclic (dep_rel (snd (add_dependency (snd (add_dependency ont a b k1)) b a k2)))"
proof -
  let ?o1 = "snd (add_dependency ont a b k1)"
  let ?o2 = "snd (add_dependency ?o1 b a k2)"
  have e1: "entities_map ?o1 = entities_map ont" using assms by (simp add: add_dependency_ok)
  have k1: "has_key (entities_map ?o1) a" "has_key (entities_map ?o1) b"
    using assms by (simp_all add: e1)
  have "has_key (dependencies_of ?o1 a) b"
    using assms by (simp add: dependencies_of_add has_key_update)
  then have "has_key (dependencies_of ?o2 a) b"
    using k1 by (simp add: dependencies_of_add has_key_update)
  moreover have "has_key (dependencies_of ?o2 b) a"
    using k1 by (simp add: dependencies_of_add has_key_update)
  ultimately have "(a, b) \<in> dep_rel ?o2" "(b, a) \<in> dep_rel ?o2"
    by (simp_all add: dep_rel_def)
  then have "(a, a) \<in> (dep_rel ?o2)\<^sup>+" by (rule trancl_into_trancl2 [OF _ r_into_trancl])
  then show ?thesis by (auto simp: acyclic_def)
qed

lemma schedule_Inr:
  assumes g: "graph_ok ont" and o: "entities_ok ont"
    and r: "topological_order score ont (entities ont) [] = Inr order"
  shows "acyclic (dep_rel ont)"
proof -
  from topological_order_Inr [OF r dependees_first_Nil]
  have df: "dependees_first ont order" and m: "mset order = mset (entities ont)" by simp_all
  from m have s: "set order = set (entities ont)" by (metis set_mset_mset)
  show ?thesis
  proof (rule dependees_first_acyclic [OF df])
    fix a b assume "(a, b) \<in> dep_rel ont"
    then have "has_key (entities_map ont) a" by (rule dep_rel_keys(1) [OF g])
    then show "a \<in> eid ` set order" unfolding s by (rule entities_ok_key [OF o])
  qed
qed

lemma schedule_cyclic:
  assumes "graph_ok ont" "entities_ok ont" "\<not> acyclic (dep_rel ont)"
  shows "multi_entity_schedule score ont = Inl CycleError"
proof (cases "topological_order score ont (entities ont) []")
  case (Inl err)
  then show ?thesis by (cases err) (simp add: multi_entity_schedule_def)
next
  case (Inr order)
  with assms schedule_Inr show ?thesis by blast
qed

lemma schedule_acyclic:
  assumes g: "graph_ok ont" and o: "entities_ok ont" and ac: "acyclic (dep_rel ont)"
  shows "\<exists>order. mset order = mset (entities ont) \<and> dependees_first ont order \<and>
     multi_entity_schedule score ont = Inr (merge ont order [] ChangeSet) \<and>
     (\<forall>e \<in> set (entities ont). \<forall>ev \<in> set (timeline e).
        \<exists>g\<ge>0. offset g ev \<in> set (merge ont order [] ChangeSet))"
proof -
  have "x \<in> eid ` (set [] \<union> set (entities ont))" if "has_key (entities_map ont) x" for x
    using entities_ok_key [OF o that] by simp
  from topological_order_acyclic [OF ac g this]
  obtain order where r: "topological_order score ont (entities ont) [] = Inr order" by blast
  from topological_order_Inr [OF r dependees_first_Nil]
  have df: "dependees_first ont order" and m: "mset order = mset (entities ont)" by simp_all
  from m have s: "set order = set (entities ont)" by (metis set_mset_mset)
  have "\<forall>e \<in> set (entities ont). \<forall>ev \<in> set (timeline e).
        \<exists>g\<ge>0. offset g ev \<in> set (merge ont order [] ChangeSet)"
    unfolding s[symmetric] by (blast intro: merge_complete)
  with r df m show ?thesis by (auto simp: multi_entity_schedule_def)
qed

text \<open>
  C2. For the ontology that any sequence of calls leaves: when its dependency graph has
  a cycle, \<open>multi_entity_schedule\<close> fails with \<open>CycleError\<close>; when it has none, the call
  returns the merge of an ordering that is a permutation of all the entities with every
  entity after its dependees, and every event of every entity's timeline is in the
  combined timeline, at its own time or offset to a later one. In particular, after an
  edge from \<open>a\<close> to \<open>b\<close> and an edge from \<open>b\<close> to \<open>a\<close> the call fails with \<open>CycleError\<close>.
  The ordering is computed by a loop that is proved to end for every input.
\<close>

theorem schedule_cycle_error:
  "(\<not> acyclic (dep_rel (run fns cs)) \<longrightarrow>
      multi_entity_schedule score (run fns cs) = Inl CycleError) \<and>
   (acyclic (dep_rel (run fns cs)) \<longrightarrow>
      (\<exists>order. mset order = mset (entities (run fns cs)) \<and>
         dependees_first (run fns cs) order \<and>
         multi_entity_schedule score (run fns cs) = Inr (merge (run fns cs) order [] ChangeSet) \<and>
         (\<forall>e \<in> set (entities (run fns cs)). \<forall>ev \<in> set (timeline e).
            \<exists>g\<ge>0. offset g ev \<in> set (merge (run fns cs) order [] ChangeSet)))) \<and>
   (has_key (entities_map (run fns cs)) a \<and> has_key (entities_map (run fns cs)) b \<longrightarrow>
      multi_entity_schedule score
        (snd (add_dependency (snd (add_dependency (run fns cs) a b k1)) b a k2))
        = Inl CycleError)"
proof (intro conjI impI)
  assume "\<not> acyclic (dep_rel (run fns cs))"
  then show "multi_entity_schedule score (run fns cs) = Inl CycleError"
    by (rule schedule_cyclic [OF graph_ok_run entities_ok_run])
next
  assume "acyclic (dep_rel (run fns cs))"
  then show "\<exists>order. mset order = mset (entities (run fns cs)) \<and>
         dependees_first (run fns cs) order \<and>
         multi_entity_schedule score (run fns cs) = Inr (merge (run fns cs) order [] ChangeSet) \<and>
         (\<forall>e \<in> set (entities (run fns cs)). \<forall>ev \<in> set (timeline e).
            \<exists>g\<ge>0. offset g ev \<in> set (merge (run fns cs) order [] ChangeSet))"
    by (rule schedule_acyclic [OF graph_ok_run entities_ok_run])
next
  assume h: "has_key (entities_map (run fns cs)) a \<and> has_key (entities_map (run fns cs)) b"
  let ?o2 = "snd (add_dependency (snd (add_dependency (run fns cs) a b k1)) b a k2)"
  have "?o2 = run fns ((cs @ [AddDependency a b k1]) @ [AddDependency b a k2])"
    by (simp only: run_snoc exec.simps)
  then have "graph_ok ?o2" "entities_ok ?o2" by (simp_all only: graph_ok_run entities_ok_run)
  moreover from h have "\<not> acyclic (dep_rel ?o2)" by (intro add_twice_cycle) simp_all
  ultimately show "multi_entity_schedule score ?o2 = Inl CycleError"
    by (rule schedule_cyclic)
qed

lemma onto_acyclic: "acyclic (dep_rel onto)"
proof (rule acyclicI_order [where f = "\<lambda>x. if x = ''tea_entity'' then 0
    else if x = ''whale_entity'' then 1 else (2::nat)"])
  fix a b assume "(a, b) \<in> dep_rel onto"
  then show "(if b = ''tea_entity'' then 0 else if b = ''whale_entity'' then 1 else (2::nat))
      < (if a = ''tea_entity'' then 0 else if a = ''whale_entity'' then 1 else 2)"
    by (auto simp: dep_rel_def has_key_def dependencies_of_def onto_eq split: if_splits)
qed

lemma onto_order:
  "topological_order zero_score onto (entities onto) [] = Inr [tea_entity, whale_entity, petunia_entity]"
  by (simp add: topological_order.simps onto_eq entities_def eligible_def dependencies_def
      dependencies_of_def tea_entity_def whale_entity_def petunia_entity_def zero_score_def)

lemma onto_schedule:
  "multi_entity_schedule zero_score onto =
     Inr [tea_event,
          \<lparr>ev_eid = ''slack::whale_entity'', ev_t0 = 1 / 2, ev_dt = 1 / 2, ev_prob = 1,
           ev_meta = []\<rparr>,
          whale_event\<lparr>ev_t0 := 1 / 2\<rparr>,
          \<lparr>ev_eid = ''slack::petunia_entity'', ev_t0 = 7 / 10, ev_dt = 7 / 10, ev_prob = 1,
           ev_meta = []\<rparr>,
          petunia_event\<lparr>ev_t0 := 7 / 10\<rparr>]"
  unfolding multi_entity_schedule_def onto_order
  by (simp add: ChangeSet_def contribution_def dependee_events_def dependencies_def
      dependencies_of_def onto_eq tea_entity_def whale_entity_def petunia_entity_def
      tea_event_def whale_event_def petunia_event_def end_time_def offset_def slack_event_def)

lemma onto_cyclic:
  "\<not> acyclic (dep_rel (run quickstart_fns
      (quickstart_calls @ [AddDependency ''tea_entity'' ''whale_entity'' ''supports''])))"
proof -
  let ?o = "run quickstart_fns
      (quickstart_calls @ [AddDependency ''tea_entity'' ''whale_entity'' ''supports''])"
  have o: "?o = snd (add_dependency onto ''tea_entity'' ''whale_entity'' ''supports'')"
    by (simp add: run_snoc onto_def)
  have "(''tea_entity'', ''whale_entity'') \<in> dep_rel ?o"
    "(''whale_entity'', ''tea_entity'') \<in> dep_rel ?o"
    unfolding o
    by (simp_all add: dep_rel_def has_key_def dependencies_of_def add_dependency_def onto_eq)
  then have "(''tea_entity'', ''tea_entity'') \<in> (dep_rel ?o)\<^sup>+"
    by (rule trancl_into_trancl2 [OF _ r_into_trancl])
  then show ?thesis by (auto simp: acyclic_def)
qed

theorem schedule_cycle_error_witness:
  "acyclic (dep_rel (run quickstart_fns quickstart_calls)) \<and>
   (\<exists>order. mset order = mset (entities onto) \<and>
      multi_entity_schedule zero_score onto = Inr (merge onto order [] ChangeSet)) \<and>
   multi_entity_schedule zero_score onto =
     Inr [tea_event,
          \<lparr>ev_eid = ''slack::whale_entity'', ev_t0 = 1 / 2, ev_dt = 1 / 2, ev_prob = 1,
           ev_meta = []\<rparr>,
          whale_event\<lparr>ev_t0 := 1 / 2\<rparr>,
          \<lparr>ev_eid = ''slack::petunia_entity'', ev_t0 = 7 / 10, ev_dt = 7 / 10, ev_prob = 1,
           ev_meta = []\<rparr>,
          petunia_event\<lparr>ev_t0 := 7 / 10\<rparr>] \<and>
   \<not> acyclic (dep_rel (run quickstart_fns
      (quickstart_calls @ [AddDependency ''tea_entity'' ''whale_entity'' ''supports'']))) \<and>
   multi_entity_schedule zero_score (run quickstart_fns
      (quickstart_calls @ [AddDependency ''tea_entity'' ''whale_entity'' ''supports'']))
     = Inl CycleError \<and>
   has_key (entities_map onto) ''tea_entity'' \<and>
   has_key (entities_map onto) ''petunia_entity'' \<and>
   multi_entity_schedule zero_score
     (snd (add_dependency (snd (add_dependency onto ''tea_entity'' ''petunia_entity'' ''supports''))
        ''petunia_entity'' ''tea_entity'' ''supports'')) = Inl CycleError"
proof -
  have r: "run quickstart_fns quickstart_calls = onto" by (simp add: onto_def)
  note a = schedule_cycle_error [of quickstart_fns quickstart_calls zero_score
      "''tea_entity''" "''petunia_entity''" "''supports''" "''supports''", unfolded r]
  note b = schedule_cycle_error [of quickstart_fns
      "quickstart_calls @ [AddDependency ''tea_entity'' ''whale_entity'' ''supports'']" zero_score]
  have 1: "acyclic (dep_rel (run quickstart_fns quickstart_calls))"
    unfolding r by (rule onto_acyclic)
  from a onto_acyclic have 2: "\<exists>order. mset order = mset (entities onto) \<and>
      multi_entity_schedule zero_score onto = Inr (merge onto order [] ChangeSet)"
    by blast
  from b onto_cyclic have 3: "multi_entity_schedule zero_score (run quickstart_fns
      (quickstart_calls @ [AddDependency ''tea_entity'' ''whale_entity'' ''supports'']))
     = Inl CycleError"
    by blast
  from a onto_facts(1,3) have 4: "multi_entity_schedule zero_score
     (snd (add_dependency (snd (add_dependency onto ''tea_entity'' ''petunia_entity'' ''supports''))
        ''petunia_entity'' ''tea_entity'' ''supports'')) = Inl CycleError"
    by blast
  from 1 2 3 4 onto_schedule onto_cyclic onto_facts(1,3) show ?thesis by blast
qed

end
